theory Spec2Isabelle
  imports Main "HOL-Library.Multiset" "HOL-Library.Stream"
begin

section \<open>Board.py: players, squares and boards\<close>

text \<open>
  \<^verbatim>\<open>class Player(Enum)\<close> has the three members \<^verbatim>\<open>Player.X\<close>, \<^verbatim>\<open>Player.O\<close> and
  \<^verbatim>\<open>Player.NONE\<close>.
  A \<^verbatim>\<open>Square\<close> holds one \<open>Player\<close>; a \<^verbatim>\<open>Board\<close> holds a list of squares and the
  player to move.  Nothing in the class fixes the length of the list or keeps
  \<^verbatim>\<open>Player.NONE\<close> out of the player to move, so the record does not either.
\<close>

datatype Player = Player_X | Player_O | Player_NONE

record Board =
  board :: "Player list"
  current_player :: Player

text \<open>
  The exceptions the modelled code can raise: \<open>ValueError\<close> from
  \<^verbatim>\<open>getNewBoardWithMove\<close>, \<open>IndexError\<close> from reading a square past the end of the
  list, and \<open>RecursionError\<close> when the interpreter's bound on nested calls is
  reached.
\<close>

datatype error = ValueError | IndexError | RecursionError

text \<open>\<^verbatim>\<open>Board()\<close>: nine empty squares, \<^verbatim>\<open>Player.X\<close> to move.\<close>

definition initial_board :: Board where
  "initial_board = \<lparr>board = replicate 9 Player_NONE, current_player = Player_X\<rparr>"

definition oppositePlayer :: "Board \<Rightarrow> Player" where
  "oppositePlayer b =
     (if current_player b = Player_X then Player_O
      else if current_player b = Player_O then Player_X
      else Player_NONE)"

definition getCurrentPlayer :: "Board \<Rightarrow> Player" where
  "getCurrentPlayer b = current_player b"

subsection \<open>The random source\<close>

text \<open>
  \<^verbatim>\<open>random.sample(moves, len(moves))\<close> draws all elements of \<open>moves\<close> without
  replacement.  The generator is an infinite stream of naturals; each draw
  consumes one of them and picks a position of the remaining pool.
\<close>

type_synonym rng = "nat stream"

function random_sample :: "'a list \<Rightarrow> rng \<Rightarrow> 'a list \<times> rng" where
  "random_sample pool g =
     (if pool = [] then ([], g)
      else let j = shd g mod length pool;
               r = random_sample (take j pool @ drop (Suc j) pool) (stl g)
           in (pool ! j # fst r, snd r))"
  by pat_completeness auto
termination
proof (relation "measure (\<lambda>(pool, g). length pool)")
  show "wf (measure (\<lambda>(pool, g). length pool))"
    by simp
next
  fix pool :: "'a list" and g :: rng and j :: nat
  assume nonempty: "pool \<noteq> []" and j: "j = shd g mod length pool"
  from nonempty j have "j < length pool"
    by simp
  then have "length (take j pool @ drop (Suc j) pool) < length pool"
    by simp
  then show "((take j pool @ drop (Suc j) pool, stl g), (pool, g))
               \<in> measure (\<lambda>(pool, g). length pool)"
    by simp
qed

subsection \<open>Queries\<close>

text \<open>The list comprehension of \<^verbatim>\<open>getLegalMoves\<close>, before it is shuffled.\<close>

definition emptySquares :: "Board \<Rightarrow> int list" where
  "emptySquares b =
     map int (filter (\<lambda>s. board b ! s = Player_NONE) [0 ..< length (board b)])"

definition getLegalMoves :: "Board \<Rightarrow> rng \<Rightarrow> int list \<times> rng" where
  "getLegalMoves b g = random_sample (emptySquares b) g"

text \<open>
  \<^verbatim>\<open>board[i].getPlayer()\<close> for a constant index \<open>i \<ge> 0\<close>: an \<open>IndexError\<close> past
  the end of the list.
\<close>

definition getPlayer :: "Player list \<Rightarrow> nat \<Rightarrow> error + Player" where
  "getPlayer sqs i = (if i < length sqs then Inr (sqs ! i) else Inl IndexError)"

definition wins :: "(nat \<times> nat \<times> nat) list" where
  "wins = [(0,1,2), (3,4,5), (6,7,8),
           (0,3,6), (1,4,7), (2,5,8),
           (0,4,8), (2,4,6)]"

text \<open>
  The chained comparison \<^verbatim>\<open>a == b == c != Player.NONE\<close> evaluates left to
  right and stops at the first comparison that fails, so the third square is
  only read when the first two agree.
\<close>

fun matches :: "Player list \<Rightarrow> nat \<times> nat \<times> nat \<Rightarrow> error + bool" where
  "matches sqs (i, j, k) =
     (case getPlayer sqs i of Inl e \<Rightarrow> Inl e | Inr a \<Rightarrow>
     (case getPlayer sqs j of Inl e \<Rightarrow> Inl e | Inr c \<Rightarrow>
      if a \<noteq> c then Inr False
      else (case getPlayer sqs k of Inl e \<Rightarrow> Inl e | Inr d \<Rightarrow>
            Inr (c = d \<and> d \<noteq> Player_NONE))))"

fun isWin_loop :: "Player list \<Rightarrow> (nat \<times> nat \<times> nat) list \<Rightarrow> error + bool" where
  "isWin_loop sqs [] = Inr False"
| "isWin_loop sqs (win # rest) =
     (case matches sqs win of
        Inl e \<Rightarrow> Inl e
      | Inr hit \<Rightarrow> if hit then Inr True else isWin_loop sqs rest)"

definition isWin :: "Board \<Rightarrow> error + bool" where
  "isWin b = isWin_loop (board b) wins"

text \<open>
  \<^verbatim>\<open>not self.isWin() and len(self.getLegalMoves()) == 0\<close>: the legal moves are
  only drawn when the board is not a win.
\<close>

definition isDraw :: "Board \<Rightarrow> rng \<Rightarrow> (error + bool) \<times> rng" where
  "isDraw b g =
     (case isWin b of
        Inl e \<Rightarrow> (Inl e, g)
      | Inr w \<Rightarrow>
          if w then (Inr False, g)
          else let r = getLegalMoves b g
               in (Inr (length (fst r) = 0), snd r))"

text \<open>
  \<^verbatim>\<open>evaluate\<close> asks \<^verbatim>\<open>isWin()\<close> in its \<^verbatim>\<open>if\<close> and, when that branch is not
  taken, again in its \<^verbatim>\<open>elif\<close>.
\<close>

definition evaluate :: "Board \<Rightarrow> Player \<Rightarrow> error + int" where
  "evaluate b original_player =
     (case isWin b of
        Inl e \<Rightarrow> Inl e
      | Inr w1 \<Rightarrow>
          if w1 \<and> current_player b = original_player then Inr (- 1)
          else (case isWin b of
                  Inl e \<Rightarrow> Inl e
                | Inr w2 \<Rightarrow>
                    if w2 \<and> current_player b \<noteq> original_player then Inr 1
                    else Inr 0))"

subsection \<open>Moves\<close>

text \<open>
  \<^verbatim>\<open>getNewBoardWithMove\<close> draws the legal moves once for its membership test,
  raises \<open>ValueError\<close> for a square that is not among them, and otherwise builds
  the new board from a copy of the squares.
\<close>

definition getNewBoardWithMove :: "Board \<Rightarrow> int \<Rightarrow> rng \<Rightarrow> (error + Board) \<times> rng" where
  "getNewBoardWithMove b square g =
     (let r = getLegalMoves b g
      in if square \<notin> set (fst r) then (Inl ValueError, snd r)
         else (Inr \<lparr>board = (board b)[nat square := current_player b],
                    current_player = oppositePlayer b\<rparr>, snd r))"

section \<open>TicTacToe.py: the search\<close>

text \<open>
  \<^verbatim>\<open>best_result\<close> starts at \<^verbatim>\<open>float("-inf")\<close> and \<^verbatim>\<open>worst_result\<close> at
  \<^verbatim>\<open>float("inf")\<close>; every other value they take is an \<open>int\<close> returned by
  \<^verbatim>\<open>evaluate\<close>.  Python compares the two kinds exactly.
\<close>

datatype number = NegInf | Num int | PosInf

fun less_number :: "number \<Rightarrow> number \<Rightarrow> bool" where
  "less_number NegInf NegInf = False"
| "less_number NegInf (Num b) = True"
| "less_number NegInf PosInf = True"
| "less_number (Num a) NegInf = False"
| "less_number (Num a) (Num b) = (a < b)"
| "less_number (Num a) PosInf = True"
| "less_number PosInf c = False"

definition as_number :: "error + int \<Rightarrow> error + number" where
  "as_number r = (case r of Inl e \<Rightarrow> Inl e | Inr v \<Rightarrow> Inr (Num v))"

text \<open>
  \<^verbatim>\<open>minimax\<close> calls itself once per move of the line it explores.  The first
  argument is the number of nested calls the interpreter still allows; a call
  with none left raises \<open>RecursionError\<close>.  \<open>minimax_loop\<close> is the \<^verbatim>\<open>for\<close> loop of
  either branch over the moves still to visit, with \<^verbatim>\<open>best_result\<close> (or
  \<^verbatim>\<open>worst_result\<close>) so far.  The \<^verbatim>\<open>debug\<close> flag only prints and is left out.
\<close>

fun minimax :: "nat \<Rightarrow> Board \<Rightarrow> bool \<Rightarrow> Player \<Rightarrow> rng \<Rightarrow> (error + number) \<times> rng"
  and minimax_loop ::
    "nat \<Rightarrow> Board \<Rightarrow> bool \<Rightarrow> Player \<Rightarrow> int list \<Rightarrow> number \<Rightarrow> rng \<Rightarrow> (error + number) \<times> rng"
where
  "minimax 0 current_board is_maximizing original_player g = (Inl RecursionError, g)"
| "minimax (Suc d) current_board is_maximizing original_player g =
     (case isWin current_board of
        Inl e \<Rightarrow> (Inl e, g)
      | Inr w \<Rightarrow>
          if w then (as_number (evaluate current_board original_player), g)
          else (case isDraw current_board g of
                  (Inl e, g1) \<Rightarrow> (Inl e, g1)
                | (Inr dr, g1) \<Rightarrow>
                    if dr then (as_number (evaluate current_board original_player), g1)
                    else let r = getLegalMoves current_board g1
                         in minimax_loop d current_board is_maximizing original_player
                              (fst r) (if is_maximizing then NegInf else PosInf) (snd r)))"
| "minimax_loop d current_board is_maximizing original_player [] best g = (Inr best, g)"
| "minimax_loop d current_board is_maximizing original_player (move # rest) best g =
     (case getNewBoardWithMove current_board move g of
        (Inl e, g1) \<Rightarrow> (Inl e, g1)
      | (Inr b', g1) \<Rightarrow>
          (case minimax d b' (\<not> is_maximizing) original_player g1 of
             (Inl e, g2) \<Rightarrow> (Inl e, g2)
           | (Inr result, g2) \<Rightarrow>
               minimax_loop d current_board is_maximizing original_player rest
                 (if is_maximizing
                  then (if less_number best result then result else best)
                  else (if less_number result best then result else best))
                 g2))"

text \<open>
  The loop of \<^verbatim>\<open>findBestMove\<close>, with \<^verbatim>\<open>best_result\<close> and \<^verbatim>\<open>best_move\<close> so far;
  \<^verbatim>\<open>best_move\<close> starts as \<^verbatim>\<open>None\<close>.
\<close>

fun findBestMove_loop ::
  "nat \<Rightarrow> Board \<Rightarrow> int list \<Rightarrow> number \<Rightarrow> int option \<Rightarrow> rng \<Rightarrow> (error + int option) \<times> rng"
where
  "findBestMove_loop d current_board [] best_result best_move g = (Inr best_move, g)"
| "findBestMove_loop d current_board (move # rest) best_result best_move g =
     (case getNewBoardWithMove current_board move g of
        (Inl e, g1) \<Rightarrow> (Inl e, g1)
      | (Inr b', g1) \<Rightarrow>
          (case minimax d b' False (getCurrentPlayer current_board) g1 of
             (Inl e, g2) \<Rightarrow> (Inl e, g2)
           | (Inr result, g2) \<Rightarrow>
               if less_number best_result result
               then findBestMove_loop d current_board rest result (Some move) g2
               else findBestMove_loop d current_board rest best_result best_move g2))"

definition findBestMove :: "nat \<Rightarrow> Board \<Rightarrow> rng \<Rightarrow> (error + int option) \<times> rng" where
  "findBestMove d current_board g =
     (let r = getLegalMoves current_board g
      in findBestMove_loop d current_board (fst r) NegInf None (snd r))"

section \<open>Squares as objects\<close>

text \<open>
  A \<^verbatim>\<open>Square\<close> is a mutable object and \<^verbatim>\<open>setPlayer\<close> writes to it, so whether
  a board is left alone by \<^verbatim>\<open>getNewBoardWithMove\<close> depends on which squares the
  boards share.  Here the squares live in a store: \<open>player_of\<close> is the
  \<^verbatim>\<open>_player\<close> slot of each square and the references below \<open>allocated\<close> are in
  use.  A board object holds references to its squares.
\<close>

type_synonym ref = nat

record store =
  player_of :: "ref \<Rightarrow> Player"
  allocated :: nat

record Board_object =
  squares :: "ref list"
  turn :: Player

text \<open>What the queries of the previous section see of a board object.\<close>

definition view :: "store \<Rightarrow> Board_object \<Rightarrow> Board" where
  "view h bo = \<lparr>board = map (player_of h) (squares bo), current_player = turn bo\<rparr>"

definition setPlayer :: "ref \<Rightarrow> Player \<Rightarrow> store \<Rightarrow> store" where
  "setPlayer r player h = h\<lparr>player_of := (player_of h)(r := player)\<rparr>"

text \<open>
  \<^verbatim>\<open>copy.deepcopy\<close> of a list of squares: every square is copied into a newly
  allocated one, and a square met a second time is mapped to the copy made
  the first time (the memo of \<^verbatim>\<open>deepcopy\<close>).
\<close>

fun deepcopy_squares ::
  "ref list \<Rightarrow> (ref \<times> ref) list \<Rightarrow> store \<Rightarrow> ref list \<times> store"
where
  "deepcopy_squares [] memo h = ([], h)"
| "deepcopy_squares (r # rs) memo h =
     (case map_of memo r of
        Some r' \<Rightarrow>
          (let c = deepcopy_squares rs memo h in (r' # fst c, snd c))
      | None \<Rightarrow>
          (let r' = allocated h;
               h1 = h\<lparr>player_of := (player_of h)(r' := player_of h r),
                      allocated := Suc r'\<rparr>;
               c = deepcopy_squares rs ((r, r') # memo) h1
           in (r' # fst c, snd c)))"

definition deepcopy :: "ref list \<Rightarrow> store \<Rightarrow> ref list \<times> store" where
  "deepcopy rs h = deepcopy_squares rs [] h"

definition getNewBoardWithMove_store ::
  "Board_object \<Rightarrow> int \<Rightarrow> store \<Rightarrow> rng \<Rightarrow> (error + Board_object) \<times> store \<times> rng"
where
  "getNewBoardWithMove_store self square h g =
     (let r = getLegalMoves (view h self) g
      in if square \<notin> set (fst r) then (Inl ValueError, h, snd r)
         else let c = deepcopy (squares self) h;
                  board_copy = fst c;
                  h' = setPlayer (board_copy ! nat square) (turn self) (snd c)
              in (Inr \<lparr>squares = board_copy, turn = oppositePlayer (view h self)\<rparr>,
                  h', snd r))"

section \<open>Notions used in the statements\<close>

text \<open>A line of three squares all held by the same player.\<close>

definition line_full :: "Player list \<Rightarrow> nat \<times> nat \<times> nat \<Rightarrow> bool" where
  "line_full sqs l = (case l of (i, j, k) \<Rightarrow>
      sqs ! i = sqs ! j \<and> sqs ! j = sqs ! k \<and> sqs ! i \<noteq> Player_NONE)"

text \<open>
  A board of a game in progress: nine squares, and one of the two players to
  move.  \<^verbatim>\<open>Board()\<close> is such a board and \<^verbatim>\<open>getNewBoardWithMove\<close> keeps it so.
\<close>

definition in_play :: "Board \<Rightarrow> bool" where
  "in_play b \<longleftrightarrow> length (board b) = 9 \<and> current_player b \<noteq> Player_NONE"

text \<open>Two finished games: \<open>X\<close> has just completed the diagonal 0-4-8; a full board without a line.\<close>

definition diagonal_win :: Board where
  "diagonal_win =
     \<lparr>board = [Player_X, Player_O, Player_O,
               Player_NONE, Player_X, Player_NONE,
               Player_NONE, Player_NONE, Player_X],
      current_player = Player_O\<rparr>"

definition drawn_board :: Board where
  "drawn_board =
     \<lparr>board = [Player_X, Player_O, Player_X,
               Player_X, Player_O, Player_O,
               Player_O, Player_X, Player_X],
      current_player = Player_O\<rparr>"

text \<open>
  While a list of squares is being copied, the memo maps squares that existed
  before the copy began (below \<open>a0\<close>) to copies made since, each holding the
  occupant of its original.
\<close>

definition memo_ok :: "nat \<Rightarrow> (ref \<times> ref) list \<Rightarrow> store \<Rightarrow> bool" where
  "memo_ok a0 memo h \<longleftrightarrow>
     (\<forall>(r, r') \<in> set memo. r < a0 \<and> a0 \<le> r' \<and> r' < allocated h \<and> player_of h r' = player_of h r)"

text \<open>\<^verbatim>\<open>Board()\<close> as an object: nine squares of their own, all empty.\<close>

definition new_store :: store where
  "new_store = \<lparr>player_of = (\<lambda>r. Player_NONE), allocated = 9\<rparr>"

definition new_board_object :: Board_object where
  "new_board_object = \<lparr>squares = [0, 1, 2, 3, 4, 5, 6, 7, 8], turn = Player_X\<rparr>"

section \<open>The search without the random source\<close>

text \<open>The board \<^verbatim>\<open>getNewBoardWithMove\<close> returns for a legal square.\<close>

definition play :: "Board \<Rightarrow> int \<Rightarrow> Board" where
  "play b square =
     \<lparr>board = (board b)[nat square := current_player b], current_player = oppositePlayer b\<rparr>"

text \<open>Some line is full: what \<^verbatim>\<open>isWin\<close> computes on nine squares.\<close>

definition won :: "Board \<Rightarrow> bool" where
  "won b \<longleftrightarrow> (\<exists>l \<in> set wins. line_full (board b) l)"

text \<open>
  The number \<^verbatim>\<open>minimax\<close> arrives at, written over the set of empty squares
  and with no generator, no order of visit and no exception.  The first
  argument bounds the depth as in \<open>minimax\<close>.
\<close>

fun game_value :: "nat \<Rightarrow> Board \<Rightarrow> bool \<Rightarrow> Player \<Rightarrow> int" where
  "game_value 0 b is_maximizing p = 0"
| "game_value (Suc d) b is_maximizing p =
     (if won b then (if current_player b = p then - 1 else 1)
      else if emptySquares b = [] then 0
      else if is_maximizing
           then Max ((\<lambda>m. game_value d (play b m) False p) ` set (emptySquares b))
           else Min ((\<lambda>m. game_value d (play b m) True p) ` set (emptySquares b)))"

text \<open>The update of \<^verbatim>\<open>best_result\<close> or \<^verbatim>\<open>worst_result\<close> inside the loops of \<^verbatim>\<open>minimax\<close>.\<close>

definition pick :: "bool \<Rightarrow> number \<Rightarrow> number \<Rightarrow> number" where
  "pick is_maximizing best result =
     (if is_maximizing
      then (if less_number best result then result else best)
      else (if less_number result best then result else best))"

text \<open>
  The loop of \<^verbatim>\<open>findBestMove\<close> over moves whose results are given by \<open>v\<close>.
\<close>

fun first_best :: "(int \<Rightarrow> int) \<Rightarrow> int list \<Rightarrow> number \<Rightarrow> int option \<Rightarrow> int option" where
  "first_best v [] best_result best_move = best_move"
| "first_best v (move # rest) best_result best_move =
     (if less_number best_result (Num (v move))
      then first_best v rest (Num (v move)) (Some move)
      else first_best v rest best_result best_move)"

text \<open>A game three moves from its end, \<open>X\<close> to move; square 6 wins at once.\<close>

definition late_board :: Board where
  "late_board =
     \<lparr>board = [Player_X, Player_O, Player_X,
               Player_X, Player_O, Player_O,
               Player_NONE, Player_NONE, Player_NONE],
      current_player = Player_X\<rparr>"

section \<open>The value of a position\<close>

text \<open>The player who is not \<open>p\<close>.\<close>

fun other :: "Player \<Rightarrow> Player" where
  "other Player_X = Player_O"
| "other Player_O = Player_X"
| "other Player_NONE = Player_NONE"

text \<open>
  What the player to move can secure: the value \<^verbatim>\<open>minimax\<close> gives the board
  when it maximizes for that player, with depth to spare.
\<close>

definition position_value :: "Board \<Rightarrow> int" where
  "position_value b =
     game_value (Suc (length (emptySquares b))) b True (current_player b)"

text \<open>The eight lines read off a list of exactly nine squares.\<close>

definition line3 :: "Player \<Rightarrow> Player \<Rightarrow> Player \<Rightarrow> bool" where
  "line3 x y z \<longleftrightarrow> x = y \<and> y = z \<and> x \<noteq> Player_NONE"

fun won9 :: "Player list \<Rightarrow> bool" where
  "won9 [a, b, c, d, e, f, g, h, i] =
     (line3 a b c \<or> line3 d e f \<or> line3 g h i \<or>
      line3 a d g \<or> line3 b e h \<or> line3 c f i \<or>
      line3 a e i \<or> line3 c e g)"
| "won9 cs = False"

text \<open>
  Two searches through the game tree that stop at the first move that
  settles the question.  \<open>can_draw n p cs\<close> finds that \<open>p\<close>, to move on the
  squares \<open>cs\<close>, has a move after which the opponent cannot win, and so on
  down the tree; \<open>cannot_win n p cs\<close> finds that after every move of \<open>p\<close> the
  opponent can still draw.  \<open>n\<close> bounds the depth; \<open>pre\<close> and \<open>post\<close> are the
  squares before and from the one being tried.
\<close>

function (sequential) can_draw :: "nat \<Rightarrow> Player \<Rightarrow> Player list \<Rightarrow> bool"
  and some_reply :: "nat \<Rightarrow> Player \<Rightarrow> Player list \<Rightarrow> Player list \<Rightarrow> bool"
  and cannot_win :: "nat \<Rightarrow> Player \<Rightarrow> Player list \<Rightarrow> bool"
  and every_reply :: "nat \<Rightarrow> Player \<Rightarrow> Player list \<Rightarrow> Player list \<Rightarrow> bool"
where
  "can_draw 0 p cs = False"
| "can_draw (Suc n) p cs =
     (if won9 cs then False
      else if Player_NONE \<notin> set cs then True
      else some_reply n p [] cs)"
| "some_reply n p pre [] = False"
| "some_reply n p pre (c # post) =
     (if c = Player_NONE
      then (if cannot_win n (other p) (pre @ p # post) then True
            else some_reply n p (pre @ [c]) post)
      else some_reply n p (pre @ [c]) post)"
| "cannot_win 0 p cs = False"
| "cannot_win (Suc n) p cs =
     (if won9 cs then True
      else if Player_NONE \<notin> set cs then True
      else every_reply n p [] cs)"
| "every_reply n p pre [] = True"
| "every_reply n p pre (c # post) =
     (if c = Player_NONE
      then (if can_draw n (other p) (pre @ p # post) then every_reply n p (pre @ [c]) post
            else False)
      else every_reply n p (pre @ [c]) post)"
  by pat_completeness auto
termination
  by (relation "measures
        [\<lambda>x. case x of
               Inl (Inl (n, p, cs)) \<Rightarrow> 2 * n
             | Inl (Inr (n, p, pre, post)) \<Rightarrow> 2 * n + 1
             | Inr (Inl (n, p, cs)) \<Rightarrow> 2 * n
             | Inr (Inr (n, p, pre, post)) \<Rightarrow> 2 * n + 1,
         \<lambda>x. case x of
               Inl (Inl (n, p, cs)) \<Rightarrow> 0
             | Inl (Inr (n, p, pre, post)) \<Rightarrow> length post
             | Inr (Inl (n, p, cs)) \<Rightarrow> 0
             | Inr (Inr (n, p, pre, post)) \<Rightarrow> length post]")
     auto

section \<open>Playing a game\<close>

text \<open>
  A sequence of moves applied one after the other, as \<^verbatim>\<open>main\<close> of
  \<^verbatim>\<open>Board.py\<close> does from \<^verbatim>\<open>Board()\<close>; the first failing move ends the run.
\<close>

fun applyMoves :: "Board \<Rightarrow> int list \<Rightarrow> rng \<Rightarrow> (error + Board) \<times> rng" where
  "applyMoves b [] g = (Inr b, g)"
| "applyMoves b (square # rest) g =
     (case getNewBoardWithMove b square g of
        (Inl e, g1) \<Rightarrow> (Inl e, g1)
      | (Inr b', g1) \<Rightarrow> applyMoves b' rest g1)"

text \<open>
  The game loop of \<^verbatim>\<open>play\<close> with \<^verbatim>\<open>findBestMove\<close> choosing for both sides.
  Before each move the end of the game is checked as \<^verbatim>\<open>checkForEnd\<close> does, a
  win first and then a draw; the argument \<open>d\<close> is the depth every call of
  \<^verbatim>\<open>findBestMove\<close> may use.  A \<^verbatim>\<open>None\<close> from \<^verbatim>\<open>findBestMove\<close> is not among the
  legal moves, so \<^verbatim>\<open>getNewBoardWithMove\<close> raises \<open>ValueError\<close> for it.  A loop
  that never ends has the value \<open>None\<close>.
\<close>

partial_function (option) selfPlay ::
  "nat \<Rightarrow> Board \<Rightarrow> rng \<Rightarrow> ((error + Board) \<times> rng) option"
where
  "selfPlay d b g =
     (case isWin b of
        Inl e \<Rightarrow> Some (Inl e, g)
      | Inr w \<Rightarrow>
          if w then Some (Inr b, g)
          else (case isDraw b g of
                  (Inl e, g1) \<Rightarrow> Some (Inl e, g1)
                | (Inr dr, g1) \<Rightarrow>
                    if dr then Some (Inr b, g1)
                    else (case findBestMove d b g1 of
                            (Inl e, g2) \<Rightarrow> Some (Inl e, g2)
                          | (Inr None, g2) \<Rightarrow> Some (Inl ValueError, g2)
                          | (Inr (Some move), g2) \<Rightarrow>
                              (case getNewBoardWithMove b move g2 of
                                 (Inl e, g3) \<Rightarrow> Some (Inl e, g3)
                               | (Inr b', g3) \<Rightarrow> selfPlay d b' g3))))"

section \<open>The random source only permutes\<close>

declare random_sample.simps [simp del]

lemma mset_random_sample: "mset (fst (random_sample pool g)) = mset pool"
proof (induction pool g rule: random_sample.induct)
  case (1 pool g)
  show ?case
  proof (cases "pool = []")
    case True
    then show ?thesis by (simp add: random_sample.simps)
  next
    case False
    define j where "j = shd g mod length pool"
    have j: "j < length pool" using False by (simp add: j_def)
    have split: "pool = take j pool @ pool ! j # drop (Suc j) pool"
      using j by (rule id_take_nth_drop)
    have "mset (fst (random_sample (take j pool @ drop (Suc j) pool) (stl g)))
            = mset (take j pool @ drop (Suc j) pool)"
      using "1.IH" [OF False j_def] .
    then have "mset (fst (random_sample pool g))
                 = add_mset (pool ! j) (mset (take j pool @ drop (Suc j) pool))"
      using False by (subst random_sample.simps) (simp add: Let_def j_def)
    also have "\<dots> = mset (take j pool @ pool ! j # drop (Suc j) pool)"
      by simp
    finally show ?thesis using split by simp
  qed
qed

lemma set_getLegalMoves: "set (fst (getLegalMoves b g)) = set (emptySquares b)"
  unfolding getLegalMoves_def by (metis mset_random_sample set_mset_mset)

lemma length_getLegalMoves: "length (fst (getLegalMoves b g)) = length (emptySquares b)"
  unfolding getLegalMoves_def by (metis mset_random_sample size_mset)

lemma in_emptySquares:
  "i \<in> set (emptySquares b) \<longleftrightarrow> 0 \<le> i \<and> nat i < length (board b) \<and> board b ! nat i = Player_NONE"
  unfolding emptySquares_def by (auto simp: image_iff)

text \<open>Evaluation of the queries on a concrete board, for the worked instances below.\<close>

lemma initial_board_squares:
  "initial_board =
     \<lparr>board = [Player_NONE, Player_NONE, Player_NONE,
               Player_NONE, Player_NONE, Player_NONE,
               Player_NONE, Player_NONE, Player_NONE],
      current_player = Player_X\<rparr>"
  by (simp add: initial_board_def numeral_eq_Suc)

lemmas board_eval =
  isWin_def wins_def getPlayer_def isDraw_def getLegalMoves_def emptySquares_def
  getNewBoardWithMove_def oppositePlayer_def random_sample.simps upt_conv_Cons

section \<open>Winning lines\<close>

lemma matches_in_range:
  "i < length sqs \<Longrightarrow> j < length sqs \<Longrightarrow> k < length sqs \<Longrightarrow>
   matches sqs (i, j, k) = Inr (line_full sqs (i, j, k))"
  by (auto simp: getPlayer_def line_full_def)

lemma isWin_loop_in_range:
  "(\<And>i j k. (i, j, k) \<in> set ws \<Longrightarrow> i < length sqs \<and> j < length sqs \<and> k < length sqs) \<Longrightarrow>
   isWin_loop sqs ws = Inr (\<exists>l \<in> set ws. line_full sqs l)"
proof (induction ws)
  case Nil
  then show ?case by simp
next
  case (Cons l ws)
  obtain i j k where l: "l = (i, j, k)" by (cases l) auto
  have "i < length sqs \<and> j < length sqs \<and> k < length sqs"
    using Cons.prems [of i j k] l by simp
  then have m: "matches sqs l = Inr (line_full sqs l)"
    unfolding l by (simp only: matches_in_range)
  have "isWin_loop sqs ws = Inr (\<exists>l \<in> set ws. line_full sqs l)"
  proof (rule Cons.IH)
    fix i j k
    assume "(i, j, k) \<in> set ws"
    then show "i < length sqs \<and> j < length sqs \<and> k < length sqs"
      using Cons.prems [of i j k] by simp
  qed
  then show ?case
    by (simp add: m del: matches.simps)
qed

lemma isWin_nine: "length (board b) = 9 \<Longrightarrow> isWin b = Inr (\<exists>l \<in> set wins. line_full (board b) l)"
  unfolding isWin_def by (rule isWin_loop_in_range) (auto simp: wins_def)

text \<open>
  C7.  On a board of nine squares \<^verbatim>\<open>isWin()\<close> returns true exactly when one of
  the eight lines 0-1-2, 3-4-5, 6-7-8, 0-3-6, 1-4-7, 2-5-8, 0-4-8, 2-4-6 has
  its three squares held by the same occupant and that occupant is not
  \<^verbatim>\<open>Player.NONE\<close>; it raises nothing.
\<close>

theorem isWin_lines:
  "length (board b) = 9 \<Longrightarrow>
   isWin b =
     Inr (\<exists>(i, j, k) \<in> set [(0,1,2), (3,4,5), (6,7,8),
                             (0,3,6), (1,4,7), (2,5,8),
                             (0,4,8), (2,4,6)].
            board b ! i = board b ! j \<and> board b ! j = board b ! k
            \<and> board b ! i \<noteq> Player_NONE)"
  by (simp add: isWin_nine wins_def line_full_def)

theorem isWin_lines_witness:
  "length (board diagonal_win) = 9 \<and> isWin diagonal_win = Inr True
   \<and> length (board drawn_board) = 9 \<and> isWin drawn_board = Inr False"
  using isWin_lines [of diagonal_win] isWin_lines [of drawn_board]
  by (simp add: diagonal_win_def drawn_board_def)

section \<open>Applying a move\<close>

lemma getNewBoardWithMove_Inr:
  "getNewBoardWithMove b i g = (Inr b', g') \<Longrightarrow>
   i \<in> set (emptySquares b)
   \<and> b' = \<lparr>board = (board b)[nat i := current_player b], current_player = oppositePlayer b\<rparr>"
  by (auto simp: getNewBoardWithMove_def Let_def set_getLegalMoves split: if_splits)

text \<open>
  C5.  On a board of nine squares \<^verbatim>\<open>getNewBoardWithMove(index)\<close> raises
  \<open>ValueError\<close> (the spec's InvalidMove) exactly when the index is below 0,
  above 8, or names a square that is not empty; in every other case it
  returns a board, whatever order the legal moves are drawn in.
\<close>

theorem getNewBoardWithMove_raises:
  "length (board b) = 9 \<Longrightarrow>
   (if index < 0 \<or> 8 < index \<or> board b ! nat index \<noteq> Player_NONE
    then fst (getNewBoardWithMove b index g) = Inl ValueError
    else \<exists>b'. fst (getNewBoardWithMove b index g) = Inr b')"
  by (auto simp: getNewBoardWithMove_def Let_def set_getLegalMoves in_emptySquares)

theorem getNewBoardWithMove_raises_witness:
  "length (board diagonal_win) = 9
   \<and> fst (getNewBoardWithMove diagonal_win 4 (sconst 0)) = Inl ValueError
   \<and> fst (getNewBoardWithMove diagonal_win 9 (sconst 0)) = Inl ValueError
   \<and> fst (getNewBoardWithMove diagonal_win (- 1) (sconst 0)) = Inl ValueError
   \<and> (\<exists>b'. fst (getNewBoardWithMove diagonal_win 3 (sconst 0)) = Inr b')"
  using getNewBoardWithMove_raises [of diagonal_win 4 "sconst 0"]
    getNewBoardWithMove_raises [of diagonal_win 9 "sconst 0"]
    getNewBoardWithMove_raises [of diagonal_win "- 1" "sconst 0"]
    getNewBoardWithMove_raises [of diagonal_win 3 "sconst 0"]
  by (simp add: diagonal_win_def)

section \<open>Evaluation of a finished game\<close>

text \<open>
  C10.  On a board of nine squares \<^verbatim>\<open>evaluate\<close> raises nothing, for any
  perspective player, and it returns 0 whenever \<^verbatim>\<open>isWin()\<close> is false, also on a
  board that still has legal moves.
\<close>

theorem evaluate_total:
  "length (board b) = 9 \<Longrightarrow>
   (\<exists>v. evaluate b p = Inr v) \<and> (isWin b = Inr False \<longrightarrow> evaluate b p = Inr 0)"
  by (simp add: evaluate_def isWin_nine)

theorem evaluate_total_witness:
  "length (board initial_board) = 9 \<and> isWin initial_board = Inr False
   \<and> fst (isDraw initial_board (sconst 0)) = Inr False
   \<and> evaluate initial_board Player_X = Inr 0"
  using evaluate_total [of initial_board Player_X]
  by (simp add: initial_board_squares board_eval)

text \<open>
  C1.  On a draw \<^verbatim>\<open>evaluate\<close> returns 0.  On a win it returns -1 when the
  perspective player is the player to move and 1 otherwise; with one of the
  two players to move and one of the two players as perspective, that is 1
  when the perspective player is the one who is not to move
  (\<^verbatim>\<open>oppositePlayer\<close>), the winner, and -1 otherwise.
\<close>

theorem evaluate_terminal:
  "(fst (isDraw b g) = Inr True \<longrightarrow> evaluate b p = Inr 0)
   \<and> (isWin b = Inr True \<longrightarrow>
        evaluate b p = Inr (if current_player b = p then - 1 else 1))
   \<and> (isWin b = Inr True \<and> current_player b \<noteq> Player_NONE \<and> p \<noteq> Player_NONE \<longrightarrow>
        evaluate b p = Inr (if oppositePlayer b = p then 1 else - 1))"
proof -
  have opp: "oppositePlayer b = p \<longleftrightarrow> current_player b \<noteq> p"
    if "current_player b \<noteq> Player_NONE" "p \<noteq> Player_NONE"
    using that by (cases "current_player b"; cases p) (simp_all add: oppositePlayer_def)
  have draw: "fst (isDraw b g) = Inr True \<Longrightarrow> isWin b = Inr False"
    by (auto simp: isDraw_def Let_def split: sum.splits if_splits)
  show ?thesis
    using draw opp by (auto simp: evaluate_def)
qed

theorem evaluate_terminal_witness:
  "current_player diagonal_win \<noteq> Player_NONE \<and> isWin diagonal_win = Inr True
   \<and> oppositePlayer diagonal_win = Player_X
   \<and> evaluate diagonal_win Player_X = Inr 1
   \<and> evaluate diagonal_win Player_O = Inr (- 1)
   \<and> fst (isDraw drawn_board (sconst 0)) = Inr True
   \<and> evaluate drawn_board Player_X = Inr 0"
proof -
  have win: "isWin diagonal_win = Inr True"
    by (simp add: diagonal_win_def isWin_def wins_def getPlayer_def)
  have draw: "fst (isDraw drawn_board (sconst 0)) = Inr True"
    by (simp add: drawn_board_def board_eval)
  have turn: "current_player diagonal_win = Player_O"
    by (simp add: diagonal_win_def)
  show ?thesis
    using evaluate_terminal [of diagonal_win "sconst 0" Player_X]
      evaluate_terminal [of diagonal_win "sconst 0" Player_O]
      evaluate_terminal [of drawn_board "sconst 0" Player_X]
    by (simp add: win draw turn oppositePlayer_def)
qed

section \<open>Counting the empty squares\<close>

lemma length_emptySquares:
  "length (emptySquares b) = length (filter (\<lambda>x. x = Player_NONE) (board b))"
proof -
  have "length (filter (\<lambda>s. xs ! s = v) [0 ..< length xs]) = length (filter (\<lambda>x. x = v) xs)"
    for xs :: "Player list" and v
  proof (induction xs rule: rev_induct)
    case Nil
    then show ?case by simp
  next
    case (snoc x xs)
    have "filter (\<lambda>s. (xs @ [x]) ! s = v) [0 ..< length xs] = filter (\<lambda>s. xs ! s = v) [0 ..< length xs]"
      by (rule filter_cong) (auto simp: nth_append)
    then show ?case using snoc.IH by simp
  qed
  then show ?thesis by (simp add: emptySquares_def)
qed

lemma move_fills_one:
  assumes "k < length xs" and "xs ! k = Player_NONE" and "p \<noteq> Player_NONE"
  shows "Suc (length (filter (\<lambda>x. x = Player_NONE) (xs[k := p])))
           = length (filter (\<lambda>x. x = Player_NONE) xs)"
proof -
  have new: "xs[k := p] = take k xs @ p # drop (Suc k) xs"
    using assms(1) by (rule upd_conv_take_nth_drop)
  have old: "xs = take k xs @ Player_NONE # drop (Suc k) xs"
    using id_take_nth_drop [OF assms(1)] assms(2) by simp
  have "length (filter (\<lambda>x. x = Player_NONE) xs)
          = length (filter (\<lambda>x. x = Player_NONE) (take k xs @ Player_NONE # drop (Suc k) xs))"
    using old by simp
  then show ?thesis
    using assms(3) by (simp add: new)
qed

lemma in_play_move:
  assumes "in_play b" and "getNewBoardWithMove b i g = (Inr b', g')"
  shows "in_play b'" and "Suc (length (emptySquares b')) = length (emptySquares b)"
proof -
  from assms(2) have i: "i \<in> set (emptySquares b)"
    and b': "b' = \<lparr>board = (board b)[nat i := current_player b], current_player = oppositePlayer b\<rparr>"
    using getNewBoardWithMove_Inr by blast+
  show "in_play b'"
    using assms(1) by (cases "current_player b") (simp_all add: in_play_def b' oppositePlayer_def)
  from i have "nat i < length (board b)" and "board b ! nat i = Player_NONE"
    by (simp_all add: in_emptySquares)
  then show "Suc (length (emptySquares b')) = length (emptySquares b)"
    using assms(1) by (simp add: length_emptySquares b' move_fills_one in_play_def)
qed

lemma applyMoves_count:
  "in_play b \<Longrightarrow> applyMoves b ms g = (Inr b', g') \<Longrightarrow>
   in_play b' \<and> length (emptySquares b') + length ms = length (emptySquares b)"
proof (induction ms arbitrary: b g)
  case Nil
  then show ?case by simp
next
  case (Cons m ms)
  from Cons.prems(2) obtain b1 g1 where
    step: "getNewBoardWithMove b m g = (Inr b1, g1)" and rest: "applyMoves b1 ms g1 = (Inr b', g')"
    by (auto split: prod.splits sum.splits)
  from in_play_move [OF Cons.prems(1) step]
  have "in_play b1" and "Suc (length (emptySquares b1)) = length (emptySquares b)" .
  with Cons.IH [OF \<open>in_play b1\<close> rest] show ?case by simp
qed

lemma initial_board_in_play: "in_play initial_board"
  by (simp add: in_play_def initial_board_def)

lemma emptySquares_initial: "length (emptySquares initial_board) = 9"
  by (simp add: length_emptySquares initial_board_def)

text \<open>
  C9.  A board reached from \<^verbatim>\<open>Board()\<close> by \<open>n\<close> successful moves has
  \<open>9 - n\<close> legal moves, in whatever order they are drawn.
\<close>

theorem legal_moves_after_n_moves:
  "applyMoves initial_board ms g = (Inr b, g') \<Longrightarrow>
   int (length (fst (getLegalMoves b h))) = 9 - int (length ms)"
  using applyMoves_count [OF initial_board_in_play, of ms g b g']
  by (simp add: length_getLegalMoves emptySquares_initial)

theorem legal_moves_after_n_moves_witness:
  "applyMoves initial_board [3, 4, 1] (sconst 0)
     = (Inr \<lparr>board = [Player_NONE, Player_X, Player_NONE,
                      Player_X, Player_O, Player_NONE,
                      Player_NONE, Player_NONE, Player_NONE],
              current_player = Player_O\<rparr>, sconst 0)
   \<and> int (length (fst (getLegalMoves
         \<lparr>board = [Player_NONE, Player_X, Player_NONE,
                   Player_X, Player_O, Player_NONE,
                   Player_NONE, Player_NONE, Player_NONE],
          current_player = Player_O\<rparr> (sconst 0)))) = 6"
proof -
  have run: "applyMoves initial_board [3, 4, 1] (sconst 0)
     = (Inr \<lparr>board = [Player_NONE, Player_X, Player_NONE,
                      Player_X, Player_O, Player_NONE,
                      Player_NONE, Player_NONE, Player_NONE],
              current_player = Player_O\<rparr>, sconst 0)"
    by (simp add: initial_board_squares board_eval)
  from legal_moves_after_n_moves [OF run, of "sconst 0"] run show ?thesis
    by simp
qed

section \<open>The board a move is applied to is left alone\<close>

lemma deepcopy_squares_copies:
  "a0 \<le> allocated h \<Longrightarrow> memo_ok a0 memo h \<Longrightarrow> \<forall>r \<in> set rs. r < a0 \<Longrightarrow>
   allocated h \<le> allocated (snd (deepcopy_squares rs memo h))
   \<and> (\<forall>r < allocated h. player_of (snd (deepcopy_squares rs memo h)) r = player_of h r)
   \<and> (\<forall>c \<in> set (fst (deepcopy_squares rs memo h)).
         a0 \<le> c \<and> c < allocated (snd (deepcopy_squares rs memo h)))
   \<and> map (player_of (snd (deepcopy_squares rs memo h))) (fst (deepcopy_squares rs memo h))
       = map (player_of h) rs"
proof (induction rs arbitrary: memo h)
  case Nil
  then show ?case by simp
next
  case (Cons r rs)
  have r_old: "r < a0" and rs_old: "\<forall>x \<in> set rs. x < a0"
    using Cons.prems(3) by simp_all
  show ?case
  proof (cases "map_of memo r")
    case (Some r')
    then have "(r, r') \<in> set memo" by (rule map_of_SomeD)
    with Cons.prems(2) have r': "a0 \<le> r'" "r' < allocated h" "player_of h r' = player_of h r"
      by (auto simp: memo_ok_def)
    from Cons.IH [OF Cons.prems(1,2) rs_old] r' Some show ?thesis
      by (auto simp: Let_def)
  next
    case None
    define r' where "r' = allocated h"
    define h1 where "h1 = h\<lparr>player_of := (player_of h)(r' := player_of h r), allocated := Suc r'\<rparr>"
    have h1: "allocated h1 = Suc r'" "player_of h1 r' = player_of h r"
      "\<And>x. x < r' \<Longrightarrow> player_of h1 x = player_of h x"
      by (simp_all add: h1_def)
    have a0: "a0 \<le> r'" using Cons.prems(1) by (simp add: r'_def)
    have memo1: "memo_ok a0 ((r, r') # memo) h1"
      using Cons.prems(2) r_old a0 h1 unfolding memo_ok_def
      by (auto simp: r'_def)
    have "a0 \<le> allocated h1" using a0 h1 by simp
    from Cons.IH [OF this memo1 rs_old]
    have IH: "allocated h1 \<le> allocated (snd (deepcopy_squares rs ((r, r') # memo) h1))"
      "\<forall>x < allocated h1. player_of (snd (deepcopy_squares rs ((r, r') # memo) h1)) x = player_of h1 x"
      "\<forall>c \<in> set (fst (deepcopy_squares rs ((r, r') # memo) h1)).
         a0 \<le> c \<and> c < allocated (snd (deepcopy_squares rs ((r, r') # memo) h1))"
      "map (player_of (snd (deepcopy_squares rs ((r, r') # memo) h1))) (fst (deepcopy_squares rs ((r, r') # memo) h1))
       = map (player_of h1) rs"
      by simp_all
    have unfold: "deepcopy_squares (r # rs) memo h
        = (r' # fst (deepcopy_squares rs ((r, r') # memo) h1), snd (deepcopy_squares rs ((r, r') # memo) h1))"
      using None by (simp add: Let_def r'_def h1_def)
    have same: "map (player_of h1) rs = map (player_of h) rs"
      using rs_old a0 h1(3) by (intro map_cong) auto
    show ?thesis
      unfolding unfold using IH h1 a0 same
      by (auto simp: r'_def [symmetric])
  qed
qed

lemma deepcopy_squares_distinct:
  "distinct rs \<Longrightarrow> set rs \<inter> fst ` set memo = {} \<Longrightarrow>
   fst (deepcopy_squares rs memo h) = [allocated h ..< allocated h + length rs]"
proof (induction rs arbitrary: memo h)
  case Nil
  then show ?case by simp
next
  case (Cons r rs)
  from Cons.prems(2) have "r \<notin> fst ` set memo" by auto
  then have None: "map_of memo r = None"
    by (simp add: map_of_eq_None_iff)
  define h1 where "h1 = h\<lparr>player_of := (player_of h)(allocated h := player_of h r),
                            allocated := Suc (allocated h)\<rparr>"
  have "set rs \<inter> fst ` set ((r, allocated h) # memo) = {}"
    using Cons.prems by auto
  with Cons.IH [of "(r, allocated h) # memo" h1] Cons.prems(1)
  have rest: "fst (deepcopy_squares rs ((r, allocated h) # memo) h1)
                = [Suc (allocated h) ..< Suc (allocated h + length rs)]"
    by (simp add: h1_def del: upt_Suc)
  have range: "[allocated h ..< allocated h + length (r # rs)]
                 = allocated h # [Suc (allocated h) ..< Suc (allocated h + length rs)]"
    by (subst upt_rec) simp
  have "fst (deepcopy_squares (r # rs) memo h)
          = allocated h # fst (deepcopy_squares rs ((r, allocated h) # memo) h1)"
    using None by (simp add: Let_def h1_def [symmetric])
  then show ?case
    by (simp only: rest range)
qed

lemma deepcopy_props:
  assumes "\<forall>r \<in> set rs. r < allocated h"
  shows "\<forall>r < allocated h. player_of (snd (deepcopy rs h)) r = player_of h r"
    and "\<forall>c \<in> set (fst (deepcopy rs h)). allocated h \<le> c"
    and "map (player_of (snd (deepcopy rs h))) (fst (deepcopy rs h)) = map (player_of h) rs"
  using deepcopy_squares_copies [of "allocated h" h "[]" rs] assms
  by (simp_all add: deepcopy_def memo_ok_def)

lemma deepcopy_distinct:
  "distinct rs \<Longrightarrow> fst (deepcopy rs h) = [allocated h ..< allocated h + length rs]"
  by (simp add: deepcopy_def deepcopy_squares_distinct)

lemma getNewBoardWithMove_store_unchanged:
  assumes "\<forall>r \<in> set (squares self). r < allocated h"
  shows "\<forall>r < allocated h.
           player_of (fst (snd (getNewBoardWithMove_store self square h g))) r = player_of h r"
proof (cases "square \<in> set (emptySquares (view h self))")
  case False
  then show ?thesis
    by (simp add: getNewBoardWithMove_store_def Let_def set_getLegalMoves)
next
  case True
  define c where "c = deepcopy (squares self) h"
  have len: "length (fst c) = length (squares self)"
    using deepcopy_props(3) [OF assms] unfolding c_def by (metis length_map)
  from True have "nat square < length (squares self)"
    by (simp add: in_emptySquares view_def)
  then have "fst c ! nat square \<in> set (fst c)"
    using len by simp
  then have fresh: "allocated h \<le> fst c ! nat square"
    using deepcopy_props(2) [OF assms] unfolding c_def by blast
  have "fst (snd (getNewBoardWithMove_store self square h g))
          = setPlayer (fst c ! nat square) (turn self) (snd c)"
    using True by (simp add: getNewBoardWithMove_store_def Let_def set_getLegalMoves c_def)
  then show ?thesis
    using fresh deepcopy_props(1) [OF assms] unfolding c_def [symmetric]
    by (auto simp: setPlayer_def)
qed

lemma getNewBoardWithMove_store_effect:
  assumes "\<forall>r \<in> set (squares self). r < allocated h"
    and "getNewBoardWithMove_store self square h g = (result, h', g')"
  shows "view h' self = view h self
       \<and> (distinct (squares self) \<and> square \<in> set (emptySquares (view h self)) \<longrightarrow>
            (\<exists>new. result = Inr new
               \<and> view h' new = \<lparr>board = (board (view h self))[nat square := turn self],
                                 current_player = oppositePlayer (view h self)\<rparr>))
       \<and> (square \<notin> set (emptySquares (view h self)) \<longrightarrow> result = Inl ValueError)"
proof -
  have h': "h' = fst (snd (getNewBoardWithMove_store self square h g))"
    using assms(2) by simp
  have "map (player_of h') (squares self) = map (player_of h) (squares self)"
    using getNewBoardWithMove_store_unchanged [OF assms(1), of square g] assms(1)
    unfolding h' by (intro map_cong) auto
  then have unchanged: "view h' self = view h self"
    by (simp add: view_def)
  have err: "result = Inl ValueError" if "square \<notin> set (emptySquares (view h self))"
    using that assms(2) by (simp add: getNewBoardWithMove_store_def Let_def set_getLegalMoves)
  have ok: "\<exists>new. result = Inr new
               \<and> view h' new = \<lparr>board = (board (view h self))[nat square := turn self],
                                 current_player = oppositePlayer (view h self)\<rparr>"
    if dist: "distinct (squares self)" and legal: "square \<in> set (emptySquares (view h self))"
  proof -
    define c where "c = deepcopy (squares self) h"
    define n where "n = length (squares self)"
    define a where "a = allocated h"
    have cs: "fst c = [a ..< a + n]"
      unfolding c_def n_def a_def using dist by (rule deepcopy_distinct)
    have k: "nat square < n"
      using legal by (simp add: in_emptySquares view_def n_def)
    have content: "map (player_of (snd c)) (fst c) = map (player_of h) (squares self)"
      unfolding c_def using assms(1) by (rule deepcopy_props(3))
    define new where "new = \<lparr>squares = fst c, turn = oppositePlayer (view h self)\<rparr>"
    have res: "result = Inr new" and h'2: "h' = setPlayer (fst c ! nat square) (turn self) (snd c)"
      using legal assms(2)
      by (simp_all add: getNewBoardWithMove_store_def Let_def set_getLegalMoves c_def new_def)
    have "map (player_of h') (fst c) = (map (player_of (snd c)) (fst c))[nat square := turn self]"
      unfolding h'2 cs using k
      by (auto simp: setPlayer_def list_eq_iff_nth_eq nth_list_update)
    then have "view h' new = \<lparr>board = (board (view h self))[nat square := turn self],
                                 current_player = oppositePlayer (view h self)\<rparr>"
      by (simp add: view_def new_def content)
    with res show ?thesis by blast
  qed
  show ?thesis using unchanged err ok by blast
qed

text \<open>
  C6.  Let the squares of a board object all be allocated.  Then
  \<^verbatim>\<open>getNewBoardWithMove\<close> leaves the board as it was, square by square and in
  its player to move, whether it returns or raises.  When the squares are
  nine distinct objects and the index names an empty square, the board
  returned is the old one with that square held by the player who moved and
  with the other player (\<^verbatim>\<open>oppositePlayer\<close>) to move; for an index that is not
  a legal move it raises \<open>ValueError\<close>.
\<close>

theorem getNewBoardWithMove_store_frame:
  assumes "\<forall>r \<in> set (squares self). r < allocated h"
    and "getNewBoardWithMove_store self square h g = (result, h', g')"
  shows "view h' self = view h self
       \<and> (distinct (squares self) \<and> square \<in> set (emptySquares (view h self)) \<longrightarrow>
            (\<exists>new. result = Inr new
               \<and> view h' new = \<lparr>board = (board (view h self))[nat square := turn self],
                                 current_player = oppositePlayer (view h self)\<rparr>))
       \<and> (square \<notin> set (emptySquares (view h self)) \<longrightarrow> result = Inl ValueError)"
  using assms by (rule getNewBoardWithMove_store_effect)

lemma view_new: "view new_store new_board_object = initial_board"
  by (simp add: view_def new_store_def new_board_object_def initial_board_squares)

lemma emptySquares_initial_list: "emptySquares initial_board = [0, 1, 2, 3, 4, 5, 6, 7, 8]"
  by (simp add: initial_board_squares emptySquares_def upt_conv_Cons)

theorem getNewBoardWithMove_store_frame_witness:
  "list_all (\<lambda>r. r < allocated new_store) (squares new_board_object)
   \<and> view (fst (snd (getNewBoardWithMove_store new_board_object 4 new_store (sconst 0))))
        new_board_object = initial_board
   \<and> (\<exists>new. fst (getNewBoardWithMove_store new_board_object 4 new_store (sconst 0)) = Inr new
         \<and> view (fst (snd (getNewBoardWithMove_store new_board_object 4 new_store (sconst 0)))) new
             = \<lparr>board = [Player_NONE, Player_NONE, Player_NONE,
                         Player_NONE, Player_X, Player_NONE,
                         Player_NONE, Player_NONE, Player_NONE],
                current_player = Player_O\<rparr>)
   \<and> fst (getNewBoardWithMove_store new_board_object 9 new_store (sconst 0)) = Inl ValueError
   \<and> view (fst (snd (getNewBoardWithMove_store new_board_object 9 new_store (sconst 0))))
        new_board_object = initial_board"
proof -
  have alloc: "\<forall>r \<in> set (squares new_board_object). r < allocated new_store"
    by (simp add: new_store_def new_board_object_def)
  have run: "getNewBoardWithMove_store new_board_object i new_store (sconst 0)
      = (fst (getNewBoardWithMove_store new_board_object i new_store (sconst 0)),
         fst (snd (getNewBoardWithMove_store new_board_object i new_store (sconst 0))),
         snd (snd (getNewBoardWithMove_store new_board_object i new_store (sconst 0))))" for i
    by simp
  have facts: "distinct (squares new_board_object)" "turn new_board_object = Player_X"
    "oppositePlayer initial_board = Player_O"
    by (simp_all add: new_board_object_def initial_board_squares oppositePlayer_def)
  show ?thesis
    using getNewBoardWithMove_store_frame [OF alloc run [of 4]]
      getNewBoardWithMove_store_frame [OF alloc run [of 9]]
    by (simp add: alloc list_all_iff view_new emptySquares_initial_list facts)
       (simp add: initial_board_squares)
qed

text \<open>The move on values is the move on objects, seen through \<open>view\<close>.\<close>

lemma getNewBoardWithMove_store_view:
  assumes "\<forall>r \<in> set (squares self). r < allocated h" and "distinct (squares self)"
    and "getNewBoardWithMove_store self square h g = (Inr new, h', g')"
  shows "getNewBoardWithMove (view h self) square g = (Inr (view h' new), g')"
proof -
  have legal: "square \<in> set (emptySquares (view h self))"
    using assms(3) by (auto simp: getNewBoardWithMove_store_def Let_def set_getLegalMoves split: if_splits)
  have g': "g' = snd (getLegalMoves (view h self) g)"
    using assms(3) by (auto simp: getNewBoardWithMove_store_def Let_def split: if_splits)
  from getNewBoardWithMove_store_effect [OF assms(1,3)] assms(2) legal
  have "view h' new = \<lparr>board = (board (view h self))[nat square := turn self],
                          current_player = oppositePlayer (view h self)\<rparr>"
    by auto
  then show ?thesis
    using legal by (simp add: getNewBoardWithMove_def Let_def set_getLegalMoves g' view_def)
qed

text \<open>
  The board returned has again squares of its own: allocated, distinct, and as
  many as before.  So every board object built from \<^verbatim>\<open>Board()\<close> by moves
  meets the conditions above.
\<close>

lemma getNewBoardWithMove_store_keeps_shape:
  assumes "\<forall>r \<in> set (squares self). r < allocated h" and "distinct (squares self)"
    and "getNewBoardWithMove_store self square h g = (Inr new, h', g')"
  shows "(\<forall>r \<in> set (squares new). r < allocated h') \<and> distinct (squares new)
         \<and> length (squares new) = length (squares self)"
proof -
  define c where "c = deepcopy (squares self) h"
  have legal: "square \<in> set (emptySquares (view h self))"
    using assms(3)
    by (auto simp: getNewBoardWithMove_store_def Let_def set_getLegalMoves split: if_splits)
  then have new: "squares new = fst c" and h': "h' = setPlayer (fst c ! nat square) (turn self) (snd c)"
    using assms(3)
    by (auto simp: getNewBoardWithMove_store_def Let_def set_getLegalMoves c_def)
  have cs: "fst c = [allocated h ..< allocated h + length (squares self)]"
    unfolding c_def using assms(2) by (rule deepcopy_distinct)
  have "\<forall>r \<in> set (fst c). r < allocated (snd c)"
    using deepcopy_squares_copies [of "allocated h" h "[]" "squares self"] assms(1)
    by (simp add: c_def deepcopy_def memo_ok_def)
  then have "\<forall>r \<in> set (squares new). r < allocated h'"
    by (simp add: new h' setPlayer_def)
  moreover have "distinct (squares new)" "length (squares new) = length (squares self)"
    by (simp_all add: new cs)
  ultimately show ?thesis by blast
qed

section \<open>What the search computes\<close>

lemma getNewBoardWithMove_legal:
  "m \<in> set (emptySquares b) \<Longrightarrow>
   getNewBoardWithMove b m g = (Inr (play b m), snd (getLegalMoves b g))"
  by (simp add: getNewBoardWithMove_def Let_def set_getLegalMoves play_def)

lemma in_play_play:
  assumes "in_play b" and "m \<in> set (emptySquares b)"
  shows "in_play (play b m)"
    and "Suc (length (emptySquares (play b m))) = length (emptySquares b)"
  using in_play_move [OF assms(1) getNewBoardWithMove_legal [OF assms(2)]] by blast+

lemma isWin_in_play: "in_play b \<Longrightarrow> isWin b = Inr (won b)"
  by (simp add: in_play_def isWin_nine won_def)

lemma evaluate_in_play:
  "in_play b \<Longrightarrow>
   evaluate b p = Inr (if won b then (if current_player b = p then - 1 else 1) else 0)"
  by (simp add: evaluate_def isWin_in_play)

lemma getLegalMoves_Nil: "fst (getLegalMoves b g) = [] \<longleftrightarrow> emptySquares b = []"
  using length_getLegalMoves [of b g] by (metis length_0_conv)

lemma isDraw_in_play:
  "in_play b \<Longrightarrow> fst (isDraw b g) = Inr (\<not> won b \<and> emptySquares b = [])"
  by (simp add: isDraw_def isWin_in_play Let_def getLegalMoves_Nil)

lemma pick_max: "pick True (Num a) (Num x) = Num (max a x)"
  and pick_min: "pick False (Num a) (Num x) = Num (min a x)"
  and pick_first: "pick True NegInf (Num x) = Num x" "pick False PosInf (Num x) = Num x"
  by (auto simp: pick_def)

lemma foldl_pick_max:
  "foldl (\<lambda>acc m. pick True acc (Num (f m))) (Num a) ms = Num (Max (insert a (f ` set ms)))"
proof (induction ms arbitrary: a)
  case Nil
  then show ?case by simp
next
  case (Cons m ms)
  have "Max (insert (max a (f m)) (f ` set ms)) = Max (insert a (insert (f m) (f ` set ms)))"
    by (cases "ms = []") (simp_all add: max.assoc)
  then show ?case
    by (simp add: pick_max Cons.IH del: Max_insert)
qed

lemma foldl_pick_min:
  "foldl (\<lambda>acc m. pick False acc (Num (f m))) (Num a) ms = Num (Min (insert a (f ` set ms)))"
proof (induction ms arbitrary: a)
  case Nil
  then show ?case by simp
next
  case (Cons m ms)
  have "Min (insert (min a (f m)) (f ` set ms)) = Min (insert a (insert (f m) (f ` set ms)))"
    by (cases "ms = []") (simp_all add: min.assoc)
  then show ?case
    by (simp add: pick_min Cons.IH del: Min_insert)
qed

lemma foldl_pick_best:
  assumes "ms \<noteq> []"
  shows "foldl (\<lambda>acc m. pick True acc (Num (f m))) NegInf ms = Num (Max (f ` set ms))"
    and "foldl (\<lambda>acc m. pick False acc (Num (f m))) PosInf ms = Num (Min (f ` set ms))"
proof -
  from assms obtain m rest where ms: "ms = m # rest"
    by (cases ms) auto
  show "foldl (\<lambda>acc m. pick True acc (Num (f m))) NegInf ms = Num (Max (f ` set ms))"
    by (simp add: ms pick_first foldl_pick_max)
  show "foldl (\<lambda>acc m. pick False acc (Num (f m))) PosInf ms = Num (Min (f ` set ms))"
    by (simp add: ms pick_first foldl_pick_min)
qed

lemma minimax_loop_foldl:
  assumes IH: "\<And>b' g. in_play b' \<Longrightarrow> length (emptySquares b') < d \<Longrightarrow>
                 fst (minimax d b' (\<not> mx) p g) = Inr (Num (v b'))"
    and b: "in_play b" "length (emptySquares b) \<le> d"
  shows "set ms \<subseteq> set (emptySquares b) \<Longrightarrow>
         fst (minimax_loop d b mx p ms best g)
           = Inr (foldl (\<lambda>acc m. pick mx acc (Num (v (play b m)))) best ms)"
proof (induction ms arbitrary: best g)
  case Nil
  then show ?case by simp
next
  case (Cons m ms)
  have m: "m \<in> set (emptySquares b)" and ms: "set ms \<subseteq> set (emptySquares b)"
    using Cons.prems by simp_all
  define g1 where "g1 = snd (getLegalMoves b g)"
  have step: "getNewBoardWithMove b m g = (Inr (play b m), g1)"
    unfolding g1_def using m by (rule getNewBoardWithMove_legal)
  have "in_play (play b m)" and "length (emptySquares (play b m)) < d"
    using in_play_play [OF b(1) m] b(2) by simp_all
  then have "fst (minimax d (play b m) (\<not> mx) p g1) = Inr (Num (v (play b m)))"
    by (rule IH)
  then obtain g2 where
    child: "minimax d (play b m) (\<not> mx) p g1 = (Inr (Num (v (play b m))), g2)"
    by (metis prod.collapse)
  have "minimax_loop d b mx p (m # ms) best g
          = minimax_loop d b mx p ms (pick mx best (Num (v (play b m)))) g2"
    by (simp add: step child pick_def)
  then show ?case
    using Cons.IH [OF ms] by simp
qed

lemma minimax_game_value:
  "in_play b \<Longrightarrow> length (emptySquares b) < d \<Longrightarrow>
   fst (minimax d b mx p g) = Inr (Num (game_value d b mx p))"
proof (induction d arbitrary: b mx p g)
  case 0
  then show ?case by simp
next
  case (Suc d)
  note b = \<open>in_play b\<close>
  show ?case
  proof (cases "won b \<or> emptySquares b = []")
    case True
    then show ?thesis
      using b isDraw_in_play [OF b, of g]
      by (cases "isDraw b g")
         (auto simp: isWin_in_play evaluate_in_play as_number_def)
  next
    case False
    then have open_game: "\<not> won b" "emptySquares b \<noteq> []" by simp_all
    obtain dr g1 where draw: "isDraw b g = (Inr False, g1)"
      using isDraw_in_play [OF b, of g] open_game by (cases "isDraw b g") auto
    define ms where "ms = fst (getLegalMoves b g1)"
    define g2 where "g2 = snd (getLegalMoves b g1)"
    have ms: "set ms = set (emptySquares b)" "ms \<noteq> []"
      using open_game set_getLegalMoves [of b g1] unfolding ms_def
      by (simp, metis length_getLegalMoves length_0_conv)
    have unfold: "minimax (Suc d) b mx p g
        = minimax_loop d b mx p ms (if mx then NegInf else PosInf) g2"
      using open_game by (simp add: isWin_in_play [OF b] draw Let_def ms_def g2_def)
    have loop: "fst (minimax_loop d b mx p ms best g2)
        = Inr (foldl (\<lambda>acc m. pick mx acc (Num (game_value d (play b m) (\<not> mx) p))) best ms)"
      for best
    proof (rule minimax_loop_foldl [OF _ b])
      show "length (emptySquares b) \<le> d" using Suc.prems(2) by simp
      show "set ms \<subseteq> set (emptySquares b)" using ms by simp
      show "fst (minimax d b' (\<not> mx) p g') = Inr (Num (game_value d b' (\<not> mx) p))"
        if "in_play b'" "length (emptySquares b') < d" for b' g'
        using that by (rule Suc.IH)
    qed
    have run: "fst (minimax (Suc d) b mx p g)
        = Inr (foldl (\<lambda>acc m. pick mx acc (Num (game_value d (play b m) (\<not> mx) p)))
                 (if mx then NegInf else PosInf) ms)"
      by (simp only: unfold loop)
    show ?thesis
    proof (cases mx)
      case True
      have "game_value (Suc d) b True p
              = Max ((\<lambda>m. game_value d (play b m) False p) ` set ms)"
        using open_game ms by simp
      then show ?thesis
        using True run
        by (simp add: foldl_pick_best(1) [OF ms(2)] del: game_value.simps minimax.simps)
    next
      case False
      have "game_value (Suc d) b False p
              = Min ((\<lambda>m. game_value d (play b m) True p) ` set ms)"
        using open_game ms by simp
      then show ?thesis
        using False run
        by (simp add: foldl_pick_best(2) [OF ms(2)] del: game_value.simps minimax.simps)
    qed
  qed
qed


text \<open>Every order of the legal moves is drawn by some generator.\<close>

lemma random_sample_any_order:
  "mset ys = mset xs \<Longrightarrow> \<exists>g. random_sample xs g = (ys, t)"
proof (induction ys arbitrary: xs)
  case Nil
  then show ?case by (simp add: random_sample.simps)
next
  case (Cons y ys)
  then have "y \<in> set xs"
    by (metis list.set_intros(1) set_mset_mset)
  then obtain j where j: "j < length xs" "xs ! j = y"
    by (auto simp: in_set_conv_nth)
  define rest where "rest = take j xs @ drop (Suc j) xs"
  have "xs = take j xs @ y # drop (Suc j) xs"
    using id_take_nth_drop [OF j(1)] j(2) by simp
  then have "mset xs = add_mset y (mset rest)"
    by (metis rest_def mset.simps(2) mset_append union_mset_add_mset_right)
  with Cons.prems have "mset ys = mset rest" by simp
  from Cons.IH [OF this] obtain g where g: "random_sample rest g = (ys, t)" ..
  have "xs \<noteq> []" using j(1) by auto
  then have "random_sample xs (j ## g) = (y # ys, t)"
    using j g by (subst random_sample.simps) (simp add: Let_def rest_def)
  then show ?case by auto
qed

text \<open>The worked instance: the search on \<open>late_board\<close>, run by the simplifier.\<close>

lemmas run_eval = board_eval evaluate_def as_number_def getCurrentPlayer_def findBestMove_def

lemma depth_3: "(3::nat) = Suc (Suc (Suc 0))" and depth_4: "(4::nat) = Suc (Suc (Suc (Suc 0)))"
  by simp_all

lemma late_board_facts:
  "in_play late_board" "emptySquares late_board = [6, 7, 8]"
  "isWin late_board = Inr False" "fst (isDraw late_board (sconst 0)) = Inr False"
  "fst (getLegalMoves late_board (sconst 0)) = [6, 7, 8]"
  "fst (getLegalMoves late_board (sconst (Suc 0))) = [7, 8, 6]"
  by (simp_all add: in_play_def late_board_def board_eval)

lemma late_board_minimax: "fst (minimax 4 late_board True Player_X (sconst 0)) = Inr (Num 1)"
  unfolding depth_4
  by (simp add: late_board_def run_eval
        cong: sum.case_cong_weak prod.case_cong_weak option.case_cong_weak)

lemma late_board_findBestMove: "fst (findBestMove 3 late_board (sconst 0)) = Inr (Some 6)"
  unfolding depth_3
  by (simp add: late_board_def run_eval
        cong: sum.case_cong_weak prod.case_cong_weak option.case_cong_weak)

text \<open>
  C8.  For a board in play and a depth bound above the number of empty
  squares, \<^verbatim>\<open>minimax\<close> returns the same integer under any two generators,
  that is, whatever order the legal moves are drawn in at each node.
\<close>

theorem minimax_order_independent:
  "in_play b \<Longrightarrow> length (emptySquares b) < d \<Longrightarrow>
   \<exists>v. fst (minimax d b is_maximizing p g) = Inr (Num v)
     \<and> fst (minimax d b is_maximizing p g') = Inr (Num v)"
  by (simp add: minimax_game_value)

theorem minimax_order_independent_witness:
  "in_play late_board \<and> length (emptySquares late_board) < 4
   \<and> fst (getLegalMoves late_board (sconst 0)) = [6, 7, 8]
   \<and> fst (getLegalMoves late_board (sconst 1)) = [7, 8, 6]
   \<and> fst (minimax 4 late_board True Player_X (sconst 0)) = Inr (Num 1)
   \<and> fst (minimax 4 late_board True Player_X (sconst 1)) = Inr (Num 1)"
  using minimax_order_independent [of late_board 4 True Player_X "sconst 0" "sconst 1"]
  by (simp add: late_board_facts late_board_minimax del: minimax.simps)

lemma child_results:
  assumes "in_play b" and "length (emptySquares b) \<le> d"
  shows "{v. \<exists>m b' g1 g2. fst (getNewBoardWithMove b m g1) = Inr b'
              \<and> fst (minimax d b' mx p g2) = Inr (Num v)}
         = (\<lambda>m. game_value d (play b m) mx p) ` set (emptySquares b)"
    (is "?L = ?R")
proof (intro set_eqI iffI)
  fix v assume "v \<in> ?L"
  then obtain m b' g1 g2 where
    step: "fst (getNewBoardWithMove b m g1) = Inr b'"
    and res: "fst (minimax d b' mx p g2) = Inr (Num v)"
    by blast
  from step have m: "m \<in> set (emptySquares b)" and b': "b' = play b m"
    using getNewBoardWithMove_Inr [of b m g1 b' "snd (getNewBoardWithMove b m g1)"]
    by (simp_all add: play_def prod_eq_iff)
  have "in_play (play b m)" "length (emptySquares (play b m)) < d"
    using in_play_play [OF assms(1) m] assms(2) by simp_all
  then have "fst (minimax d (play b m) mx p g2) = Inr (Num (game_value d (play b m) mx p))"
    by (rule minimax_game_value)
  with res b' have "v = game_value d (play b m) mx p" by simp
  with m show "v \<in> ?R" by blast
next
  fix v assume "v \<in> ?R"
  then obtain m where m: "m \<in> set (emptySquares b)" and v: "v = game_value d (play b m) mx p"
    by blast
  have "in_play (play b m)" "length (emptySquares (play b m)) < d"
    using in_play_play [OF assms(1) m] assms(2) by simp_all
  then have "fst (minimax d (play b m) mx p g) = Inr (Num v)" for g
    unfolding v by (rule minimax_game_value)
  moreover have "fst (getNewBoardWithMove b m g) = Inr (play b m)" for g
    using m by (simp add: getNewBoardWithMove_legal)
  ultimately show "v \<in> ?L" by blast
qed

text \<open>
  C3.  For a board in play and enough depth: on a win or a draw \<^verbatim>\<open>minimax\<close>
  returns \<^verbatim>\<open>evaluate(original_player)\<close>; otherwise it returns the maximum
  (when maximizing) or the minimum (when not) of the results of \<^verbatim>\<open>minimax\<close>
  on the boards reached by the legal moves, with the flag negated and the
  same \<^verbatim>\<open>original_player\<close>.
\<close>

theorem minimax_recursion:
  assumes "in_play b" and "length (emptySquares b) \<le> d"
  shows "(if isWin b = Inr True \<or> fst (isDraw b g) = Inr True
          then fst (minimax (Suc d) b is_maximizing p g) = as_number (evaluate b p)
          else if is_maximizing
          then fst (minimax (Suc d) b is_maximizing p g)
                 = Inr (Num (Max {v. \<exists>m b' g1 g2.
                            fst (getNewBoardWithMove b m g1) = Inr b'
                            \<and> fst (minimax d b' False p g2) = Inr (Num v)}))
          else fst (minimax (Suc d) b is_maximizing p g)
                 = Inr (Num (Min {v. \<exists>m b' g1 g2.
                            fst (getNewBoardWithMove b m g1) = Inr b'
                            \<and> fst (minimax d b' True p g2) = Inr (Num v)})))"
proof -
  have run: "fst (minimax (Suc d) b is_maximizing p g)
               = Inr (Num (game_value (Suc d) b is_maximizing p))"
    using assms by (simp add: minimax_game_value del: minimax.simps game_value.simps)
  have terminal: "isWin b = Inr True \<or> fst (isDraw b g) = Inr True
                    \<longleftrightarrow> won b \<or> emptySquares b = []"
    using assms(1) by (auto simp: isWin_in_play isDraw_in_play)
  show ?thesis
    unfolding run terminal child_results [OF assms]
    using assms(1) by (auto simp: evaluate_in_play as_number_def)
qed


theorem minimax_recursion_witness:
  "in_play late_board \<and> length (emptySquares late_board) \<le> 3
   \<and> isWin late_board = Inr False \<and> fst (isDraw late_board (sconst 0)) = Inr False
   \<and> fst (minimax 4 late_board True Player_X (sconst 0))
       = Inr (Num (Max {v. \<exists>m b' g1 g2.
                    fst (getNewBoardWithMove late_board m g1) = Inr b'
                    \<and> fst (minimax 3 b' False Player_X g2) = Inr (Num v)}))
   \<and> in_play diagonal_win \<and> length (emptySquares diagonal_win) \<le> 4
   \<and> isWin diagonal_win = Inr True
   \<and> fst (minimax 5 diagonal_win True Player_X (sconst 0))
       = as_number (evaluate diagonal_win Player_X)"
proof -
  have win: "in_play diagonal_win" "emptySquares diagonal_win = [3, 5, 6, 7]"
    "isWin diagonal_win = Inr True"
    by (simp_all add: in_play_def diagonal_win_def board_eval)
  show ?thesis
    using minimax_recursion [of late_board 3 "sconst 0" True Player_X]
      minimax_recursion [of diagonal_win 4 "sconst 0" True Player_X]
    by (simp add: late_board_facts win del: minimax.simps)
qed

section \<open>The move chosen\<close>

lemma findBestMove_loop_first_best:
  assumes child_value: "\<And>b' g. in_play b' \<Longrightarrow> length (emptySquares b') < d \<Longrightarrow>
                     fst (minimax d b' False (current_player b) g) = Inr (Num (v b'))"
    and b: "in_play b" "length (emptySquares b) \<le> d"
  shows "set ms \<subseteq> set (emptySquares b) \<Longrightarrow>
         fst (findBestMove_loop d b ms best_result best_move g)
           = Inr (first_best (\<lambda>m. v (play b m)) ms best_result best_move)"
proof (induction ms arbitrary: best_result best_move g)
  case Nil
  then show ?case by simp
next
  case (Cons m ms)
  have m: "m \<in> set (emptySquares b)" and ms: "set ms \<subseteq> set (emptySquares b)"
    using Cons.prems by simp_all
  define g1 where "g1 = snd (getLegalMoves b g)"
  have step: "getNewBoardWithMove b m g = (Inr (play b m), g1)"
    unfolding g1_def using m by (rule getNewBoardWithMove_legal)
  have "in_play (play b m)" and "length (emptySquares (play b m)) < d"
    using in_play_play [OF b(1) m] b(2) by simp_all
  then have "fst (minimax d (play b m) False (current_player b) g1) = Inr (Num (v (play b m)))"
    by (rule child_value)
  then obtain g2 where
    child: "minimax d (play b m) False (current_player b) g1 = (Inr (Num (v (play b m))), g2)"
    by (metis prod.collapse)
  show ?case
    using Cons.IH [OF ms] by (simp add: step child getCurrentPlayer_def)
qed

lemma first_best_from:
  "(first_best v ms (Num a) best_move = best_move \<and> (\<forall>x \<in> set ms. v x \<le> a))
   \<or> (\<exists>pre m post. ms = pre @ m # post \<and> first_best v ms (Num a) best_move = Some m
         \<and> a < v m \<and> (\<forall>x \<in> set pre. v x < v m) \<and> (\<forall>x \<in> set post. v x \<le> v m))"
proof (induction ms arbitrary: a best_move)
  case Nil
  then show ?case by simp
next
  case (Cons x ms)
  show ?case
  proof (cases "a < v x")
    case True
    then have unfold: "first_best v (x # ms) (Num a) best_move = first_best v ms (Num (v x)) (Some x)"
      by simp
    from Cons.IH [of "v x" "Some x"] show ?thesis
    proof
      assume "first_best v ms (Num (v x)) (Some x) = Some x \<and> (\<forall>y \<in> set ms. v y \<le> v x)"
      then have "x # ms = [] @ x # ms \<and> first_best v (x # ms) (Num a) best_move = Some x
          \<and> a < v x \<and> (\<forall>y \<in> set []. v y < v x) \<and> (\<forall>y \<in> set ms. v y \<le> v x)"
        using True unfold by simp
      then show ?thesis by blast
    next
      assume "\<exists>pre m post. ms = pre @ m # post \<and> first_best v ms (Num (v x)) (Some x) = Some m
         \<and> v x < v m \<and> (\<forall>y \<in> set pre. v y < v m) \<and> (\<forall>y \<in> set post. v y \<le> v m)"
      then obtain pre m post where *: "ms = pre @ m # post"
        "first_best v ms (Num (v x)) (Some x) = Some m" "v x < v m"
        "\<forall>y \<in> set pre. v y < v m" "\<forall>y \<in> set post. v y \<le> v m"
        by blast
      have "x # ms = (x # pre) @ m # post \<and> first_best v (x # ms) (Num a) best_move = Some m
          \<and> a < v m \<and> (\<forall>y \<in> set (x # pre). v y < v m) \<and> (\<forall>y \<in> set post. v y \<le> v m)"
        using * True unfold by simp
      then show ?thesis by blast
    qed
  next
    case False
    then have unfold: "first_best v (x # ms) (Num a) best_move = first_best v ms (Num a) best_move"
      by simp
    from Cons.IH [of a best_move] show ?thesis
    proof
      assume "first_best v ms (Num a) best_move = best_move \<and> (\<forall>y \<in> set ms. v y \<le> a)"
      then show ?thesis using False unfold by simp
    next
      assume "\<exists>pre m post. ms = pre @ m # post \<and> first_best v ms (Num a) best_move = Some m
         \<and> a < v m \<and> (\<forall>y \<in> set pre. v y < v m) \<and> (\<forall>y \<in> set post. v y \<le> v m)"
      then obtain pre m post where *: "ms = pre @ m # post"
        "first_best v ms (Num a) best_move = Some m" "a < v m"
        "\<forall>y \<in> set pre. v y < v m" "\<forall>y \<in> set post. v y \<le> v m"
        by blast
      have "x # ms = (x # pre) @ m # post \<and> first_best v (x # ms) (Num a) best_move = Some m
          \<and> a < v m \<and> (\<forall>y \<in> set (x # pre). v y < v m) \<and> (\<forall>y \<in> set post. v y \<le> v m)"
        using * False unfold by simp
      then show ?thesis by blast
    qed
  qed
qed

lemma first_best_start:
  assumes "ms \<noteq> []"
  shows "\<exists>pre m post. ms = pre @ m # post \<and> first_best v ms NegInf None = Some m
           \<and> (\<forall>x \<in> set pre. v x < v m) \<and> (\<forall>x \<in> set post. v x \<le> v m)"
proof -
  from assms obtain x rest where ms: "ms = x # rest" by (cases ms) auto
  have start: "first_best v ms NegInf None = first_best v rest (Num (v x)) (Some x)"
    by (simp add: ms)
  from first_best_from [of v rest "v x" "Some x"] show ?thesis
  proof
    assume "first_best v rest (Num (v x)) (Some x) = Some x \<and> (\<forall>y \<in> set rest. v y \<le> v x)"
    then have "ms = [] @ x # rest \<and> first_best v ms NegInf None = Some x
        \<and> (\<forall>y \<in> set []. v y < v x) \<and> (\<forall>y \<in> set rest. v y \<le> v x)"
      using start ms by simp
    then show ?thesis by blast
  next
    assume "\<exists>pre m post. rest = pre @ m # post \<and> first_best v rest (Num (v x)) (Some x) = Some m
         \<and> v x < v m \<and> (\<forall>y \<in> set pre. v y < v m) \<and> (\<forall>y \<in> set post. v y \<le> v m)"
    then obtain pre m post where *: "rest = pre @ m # post"
      "first_best v rest (Num (v x)) (Some x) = Some m" "v x < v m"
      "\<forall>y \<in> set pre. v y < v m" "\<forall>y \<in> set post. v y \<le> v m"
      by blast
    have "ms = (x # pre) @ m # post \<and> first_best v ms NegInf None = Some m
        \<and> (\<forall>y \<in> set (x # pre). v y < v m) \<and> (\<forall>y \<in> set post. v y \<le> v m)"
      using * start ms by simp
    then show ?thesis by blast
  qed
qed

lemma findBestMove_first_best:
  assumes "in_play b" and "length (emptySquares b) \<le> d"
  shows "fst (findBestMove d b g)
           = Inr (first_best (\<lambda>m. game_value d (play b m) False (current_player b))
                    (fst (getLegalMoves b g)) NegInf None)"
  unfolding findBestMove_def Let_def
proof (rule findBestMove_loop_first_best [OF _ assms])
  show "set (fst (getLegalMoves b g)) \<subseteq> set (emptySquares b)"
    by (simp add: set_getLegalMoves)
  show "fst (minimax d b' False (current_player b) g') = Inr (Num (game_value d b' False (current_player b)))"
    if "in_play b'" "length (emptySquares b') < d" for b' g'
    using that by (rule minimax_game_value)
qed

text \<open>
  C4.  On a board in play that is neither won nor drawn, \<^verbatim>\<open>findBestMove\<close>
  returns a move of the list it drew such that every move before it in the
  list has a strictly smaller result and every move after it has a result
  that is not larger, where the result of a move is what \<^verbatim>\<open>minimax\<close> returns
  on the board after the move, not maximizing, for the player to move.
\<close>

theorem findBestMove_first_maximum:
  assumes "in_play b" and "isWin b = Inr False" and "fst (isDraw b g0) = Inr False"
    and "length (emptySquares b) \<le> d"
  shows "\<exists>score pre move post.
           (\<forall>m b' g1 g2. fst (getNewBoardWithMove b m g1) = Inr b' \<longrightarrow>
              fst (minimax d b' False (getCurrentPlayer b) g2) = Inr (Num (score m)))
           \<and> fst (getLegalMoves b g) = pre @ move # post
           \<and> fst (findBestMove d b g) = Inr (Some move)
           \<and> (\<forall>m \<in> set pre. score m < score move)
           \<and> (\<forall>m \<in> set post. score m \<le> score move)"
proof -
  define score where "score m = game_value d (play b m) False (current_player b)" for m
  have "emptySquares b \<noteq> []"
    using assms(1,2,3) by (simp add: isWin_in_play isDraw_in_play)
  then have "fst (getLegalMoves b g) \<noteq> []"
    by (simp add: getLegalMoves_Nil)
  from first_best_start [OF this, of score] obtain pre move post where
    order: "fst (getLegalMoves b g) = pre @ move # post"
    and best: "first_best score (fst (getLegalMoves b g)) NegInf None = Some move"
    and before: "\<forall>m \<in> set pre. score m < score move"
    and after: "\<forall>m \<in> set post. score m \<le> score move"
    by blast
  have result: "fst (findBestMove d b g) = Inr (Some move)"
    using findBestMove_first_best [OF assms(1,4), of g] best
    by (simp add: score_def [abs_def])
  have scores: "fst (minimax d b' False (getCurrentPlayer b) g2) = Inr (Num (score m))"
    if "fst (getNewBoardWithMove b m g1) = Inr b'" for m b' g1 g2
  proof -
    from that have m: "m \<in> set (emptySquares b)" and b': "b' = play b m"
      using getNewBoardWithMove_Inr [of b m g1 b' "snd (getNewBoardWithMove b m g1)"]
      by (simp_all add: play_def prod_eq_iff)
    have "in_play (play b m)" "length (emptySquares (play b m)) < d"
      using in_play_play [OF assms(1) m] assms(4) by simp_all
    then show ?thesis
      unfolding b' score_def getCurrentPlayer_def by (rule minimax_game_value)
  qed
  from scores order result before after show ?thesis by blast
qed

theorem findBestMove_first_maximum_witness:
  "in_play late_board \<and> isWin late_board = Inr False
   \<and> fst (isDraw late_board (sconst 0)) = Inr False
   \<and> length (emptySquares late_board) \<le> 3
   \<and> fst (getLegalMoves late_board (sconst 0)) = [6, 7, 8]
   \<and> fst (findBestMove 3 late_board (sconst 0)) = Inr (Some 6)
   \<and> (\<exists>pre move post. [6, 7, 8] = pre @ move # post \<and> Inr (Some 6) = (Inr (Some move) :: error + int option))"
  using findBestMove_first_maximum [of late_board "sconst 0" 3 "sconst 0"]
  by (simp add: late_board_facts late_board_findBestMove) blast

section \<open>Values seen from the other side\<close>

lemma oppositePlayer_other: "oppositePlayer b = other (current_player b)"
  by (cases "current_player b") (simp_all add: oppositePlayer_def)

lemma play_sel:
  "board (play b m) = (board b)[nat m := current_player b]"
  "current_player (play b m) = other (current_player b)"
  by (simp_all add: play_def oppositePlayer_other)

lemma other_player: "p \<noteq> Player_NONE \<Longrightarrow> other p \<noteq> Player_NONE \<and> other p \<noteq> p \<and> other (other p) = p"
  by (cases p) simp_all

lemma game_value_depth:
  "in_play b \<Longrightarrow> length (emptySquares b) < d \<Longrightarrow> length (emptySquares b) < d' \<Longrightarrow>
   game_value d b mx p = game_value d' b mx p"
proof (induction d arbitrary: d' b mx)
  case 0
  then show ?case by simp
next
  case (Suc d)
  from Suc.prems(3) obtain e where d': "d' = Suc e"
    by (cases d') auto
  have kids: "game_value d (play b m) mx' p = game_value e (play b m) mx' p"
    if "m \<in> set (emptySquares b)" for m mx'
  proof -
    have "in_play (play b m)" "length (emptySquares (play b m)) < d"
      "length (emptySquares (play b m)) < e"
      using in_play_play [OF Suc.prems(1) that] Suc.prems(2,3) d' by simp_all
    then show ?thesis by (rule Suc.IH)
  qed
  have "(\<lambda>m. game_value d (play b m) mx' p) ` set (emptySquares b)
          = (\<lambda>m. game_value e (play b m) mx' p) ` set (emptySquares b)" for mx'
    by (rule image_cong) (simp_all add: kids)
  then show ?case
    by (simp add: d')
qed

lemma game_value_negate:
  "in_play b \<Longrightarrow> p \<noteq> Player_NONE \<Longrightarrow>
   game_value d b mx p = - game_value d b (\<not> mx) (other p)"
proof (induction d arbitrary: b mx)
  case 0
  then show ?case by simp
next
  case (Suc d)
  let ?S = "set (emptySquares b)"
  have turn: "current_player b = p \<longleftrightarrow> current_player b \<noteq> other p"
    using Suc.prems by (cases p; cases "current_player b") (simp_all add: in_play_def)
  have kids: "game_value d (play b m) mx' p = - game_value d (play b m) (\<not> mx') (other p)"
    if "m \<in> ?S" for m mx'
    using in_play_play(1) [OF Suc.prems(1) that] Suc.prems(2) by (rule Suc.IH)
  show ?case
  proof (cases "won b \<or> emptySquares b = []")
    case True
    then show ?thesis using turn by auto
  next
    case False
    then have ne: "?S \<noteq> {}" and fin: "finite ?S" by simp_all
    show ?thesis
    proof (cases mx)
      case True
      have "(\<lambda>m. game_value d (play b m) False p) ` ?S
              = uminus ` (\<lambda>m. game_value d (play b m) True (other p)) ` ?S"
        unfolding image_image by (rule image_cong) (simp_all add: kids)
      moreover have "- Min ((\<lambda>m. game_value d (play b m) True (other p)) ` ?S)
              = Max (uminus ` (\<lambda>m. game_value d (play b m) True (other p)) ` ?S)"
        using ne fin by (intro minus_Min_eq_Max) simp_all
      ultimately show ?thesis
        using True False by simp
    next
      case mn: False
      have "(\<lambda>m. game_value d (play b m) True p) ` ?S
              = uminus ` (\<lambda>m. game_value d (play b m) False (other p)) ` ?S"
        unfolding image_image by (rule image_cong) (simp_all add: kids)
      moreover have "- Max ((\<lambda>m. game_value d (play b m) False (other p)) ` ?S)
              = Min (uminus ` (\<lambda>m. game_value d (play b m) False (other p)) ` ?S)"
        using ne fin by (intro minus_Max_eq_Min) simp_all
      ultimately show ?thesis
        using mn False by simp
    qed
  qed
qed

lemma child_score:
  assumes "in_play b" and "m \<in> set (emptySquares b)" and "length (emptySquares b) \<le> d"
  shows "game_value d (play b m) False (current_player b) = - position_value (play b m)"
proof -
  have kid: "in_play (play b m)" "Suc (length (emptySquares (play b m))) = length (emptySquares b)"
    using in_play_play [OF assms(1,2)] .
  have turn: "current_player b \<noteq> Player_NONE"
    using assms(1) by (simp add: in_play_def)
  have "game_value d (play b m) False (current_player b)
          = - game_value d (play b m) True (other (current_player b))"
    using game_value_negate [OF kid(1) turn, of d False] by simp
  also have "game_value d (play b m) True (other (current_player b))
          = game_value (Suc (length (emptySquares (play b m)))) (play b m) True
              (other (current_player b))"
    using kid assms(3) by (intro game_value_depth) simp_all
  finally show ?thesis
    by (simp add: position_value_def play_sel)
qed

lemma position_value_won: "won b \<Longrightarrow> position_value b = - 1"
  and position_value_full: "\<not> won b \<Longrightarrow> emptySquares b = [] \<Longrightarrow> position_value b = 0"
  by (simp_all add: position_value_def)

lemma position_value_open:
  assumes "in_play b" and "\<not> won b" and "emptySquares b \<noteq> []"
  shows "position_value b = Max ((\<lambda>m. - position_value (play b m)) ` set (emptySquares b))"
proof -
  have "(\<lambda>m. game_value (length (emptySquares b)) (play b m) False (current_player b))
          ` set (emptySquares b)
        = (\<lambda>m. - position_value (play b m)) ` set (emptySquares b)"
    by (rule image_cong) (simp_all add: child_score [OF assms(1)])
  then show ?thesis
    using assms(2,3) by (simp add: position_value_def)
qed


section \<open>Both sides playing the move chosen\<close>

lemma findBestMove_keeps_value:
  assumes "in_play b" and "\<not> won b" and "emptySquares b \<noteq> []"
    and "length (emptySquares b) \<le> d"
  shows "\<exists>m. fst (findBestMove d b g) = Inr (Some m) \<and> m \<in> set (emptySquares b)
             \<and> - position_value (play b m) = position_value b"
proof -
  define score where "score m = game_value d (play b m) False (current_player b)" for m
  have score: "score m = - position_value (play b m)" if "m \<in> set (emptySquares b)" for m
    unfolding score_def using assms(1) that assms(4) by (rule child_score)
  have "fst (getLegalMoves b g) \<noteq> []"
    using assms(3) by (simp add: getLegalMoves_Nil)
  from first_best_start [OF this, of score] obtain pre move post where
    order: "fst (getLegalMoves b g) = pre @ move # post"
    and best: "first_best score (fst (getLegalMoves b g)) NegInf None = Some move"
    and before: "\<forall>m \<in> set pre. score m < score move"
    and after: "\<forall>m \<in> set post. score m \<le> score move"
    by blast
  have result: "fst (findBestMove d b g) = Inr (Some move)"
    using findBestMove_first_best [OF assms(1,4), of g] best
    by (simp add: score_def [abs_def])
  have moves: "set (emptySquares b) = set (pre @ move # post)"
    using set_getLegalMoves [of b g] order by simp
  then have move: "move \<in> set (emptySquares b)" by simp
  have "Max (score ` set (emptySquares b)) = score move"
  proof (rule Max_eqI)
    show "finite (score ` set (emptySquares b))" by simp
    show "score move \<in> score ` set (emptySquares b)" using move by simp
    show "y \<le> score move" if "y \<in> score ` set (emptySquares b)" for y
      using that before after unfolding moves by auto
  qed
  moreover have "score ` set (emptySquares b)
      = (\<lambda>m. - position_value (play b m)) ` set (emptySquares b)"
    by (rule image_cong) (simp_all add: score)
  ultimately have "position_value b = score move"
    using position_value_open [OF assms(1,2,3)] by simp
  with result move score [OF move] show ?thesis by auto
qed

lemma selfPlay_draw:
  "in_play b \<Longrightarrow> position_value b = 0 \<Longrightarrow> length (emptySquares b) = n \<Longrightarrow> n \<le> d \<Longrightarrow>
   \<exists>b' g'. selfPlay d b g = Some (Inr b', g') \<and> in_play b' \<and> \<not> won b' \<and> emptySquares b' = []"
proof (induction n arbitrary: b g)
  case 0
  have "\<not> won b"
    using position_value_won [of b] "0.prems"(2) by auto
  moreover obtain g1 where "isDraw b g = (Inr True, g1)"
    using isDraw_in_play [OF "0.prems"(1), of g] \<open>\<not> won b\<close> "0.prems"(3)
    by (cases "isDraw b g") auto
  ultimately have "selfPlay d b g = Some (Inr b, g1)"
    using "0.prems"(1) by (subst selfPlay.simps) (simp add: isWin_in_play)
  then show ?case
    using "0.prems" \<open>\<not> won b\<close> by simp
next
  case (Suc n)
  note b = \<open>in_play b\<close>
  have open_game: "\<not> won b" "emptySquares b \<noteq> []"
    using position_value_won [of b] Suc.prems(2,3) by auto
  obtain g1 where draw: "isDraw b g = (Inr False, g1)"
    using isDraw_in_play [OF b, of g] open_game by (cases "isDraw b g") auto
  from findBestMove_keeps_value [OF b open_game, of d g1] Suc.prems(3,4)
  obtain m where m: "fst (findBestMove d b g1) = Inr (Some m)" "m \<in> set (emptySquares b)"
    "- position_value (play b m) = position_value b"
    by auto
  obtain g2 where best: "findBestMove d b g1 = (Inr (Some m), g2)"
    using m(1) by (cases "findBestMove d b g1") auto
  define g3 where "g3 = snd (getLegalMoves b g2)"
  have step: "getNewBoardWithMove b m g2 = (Inr (play b m), g3)"
    unfolding g3_def using m(2) by (rule getNewBoardWithMove_legal)
  have unfold: "selfPlay d b g = selfPlay d (play b m) g3"
    using open_game b by (subst selfPlay.simps) (simp add: isWin_in_play draw best step)
  have "in_play (play b m)" "position_value (play b m) = 0"
    "length (emptySquares (play b m)) = n"
    using in_play_play [OF b m(2)] m(3) Suc.prems(2,3) by simp_all
  from Suc.IH [OF this, of g3] Suc.prems(4) show ?case
    unfolding unfold by simp
qed


section \<open>The empty board is worth a draw\<close>

lemma won9_won:
  "length cs = 9 \<Longrightarrow> won \<lparr>board = cs, current_player = p\<rparr> \<longleftrightarrow> won9 cs"
proof -
  assume "length cs = 9"
  then obtain a b c d e f g h i where cs: "cs = [a, b, c, d, e, f, g, h, i]"
    by (auto simp: length_Suc_conv numeral_eq_Suc)
  show ?thesis
    unfolding cs by (auto simp: won_def wins_def line_full_def line3_def)
qed

lemma emptySquares_cells:
  "m \<in> set (emptySquares \<lparr>board = cs, current_player = p\<rparr>)
     \<longleftrightarrow> (\<exists>k < length cs. m = int k \<and> cs ! k = Player_NONE)"
  by (auto simp: in_emptySquares intro: exI [of _ "nat m"])

lemma emptySquares_full:
  "emptySquares \<lparr>board = cs, current_player = p\<rparr> = [] \<longleftrightarrow> Player_NONE \<notin> set cs"
proof -
  have "emptySquares \<lparr>board = cs, current_player = p\<rparr> = []
          \<longleftrightarrow> length (emptySquares \<lparr>board = cs, current_player = p\<rparr>) = 0"
    by simp
  also have "\<dots> \<longleftrightarrow> length (filter (\<lambda>x. x = Player_NONE) cs) = 0"
    by (simp only: length_emptySquares Board.select_convs)
  also have "\<dots> \<longleftrightarrow> Player_NONE \<notin> set cs"
    by (auto simp: filter_empty_conv)
  finally show ?thesis .
qed

lemma play_cells:
  "play \<lparr>board = cs, current_player = p\<rparr> (int k) = \<lparr>board = cs[k := p], current_player = other p\<rparr>"
  by (simp add: play_def oppositePlayer_other)

lemma some_reply_sound:
  assumes IH: "\<And>cs'. cannot_win n (other p) cs' \<Longrightarrow> length cs' = 9 \<Longrightarrow>
                 position_value \<lparr>board = cs', current_player = other p\<rparr> \<le> 0"
  shows "some_reply n p pre post \<Longrightarrow> length (pre @ post) = 9 \<Longrightarrow>
         \<exists>k < 9. (pre @ post) ! k = Player_NONE
           \<and> position_value \<lparr>board = (pre @ post)[k := p], current_player = other p\<rparr> \<le> 0"
proof (induction post arbitrary: pre)
  case Nil
  then show ?case by simp
next
  case (Cons c post)
  show ?case
  proof (cases "c = Player_NONE \<and> cannot_win n (other p) (pre @ p # post)")
    case True
    then have "position_value \<lparr>board = pre @ p # post, current_player = other p\<rparr> \<le> 0"
      using Cons.prems(2) by (intro IH) simp_all
    moreover have "(pre @ c # post)[length pre := p] = pre @ p # post"
      by simp
    moreover have "length pre < 9" "(pre @ c # post) ! length pre = Player_NONE"
      using True Cons.prems(2) by simp_all
    ultimately show ?thesis by metis
  next
    case False
    then have "some_reply n p (pre @ [c]) post"
      using Cons.prems(1) by (auto split: if_splits)
    from Cons.IH [OF this] Cons.prems(2) show ?thesis by simp
  qed
qed

lemma every_reply_sound:
  assumes IH: "\<And>cs'. can_draw n (other p) cs' \<Longrightarrow> length cs' = 9 \<Longrightarrow>
                 0 \<le> position_value \<lparr>board = cs', current_player = other p\<rparr>"
  shows "every_reply n p pre post \<Longrightarrow> length (pre @ post) = 9 \<Longrightarrow>
         length pre \<le> k \<Longrightarrow> k < 9 \<Longrightarrow> (pre @ post) ! k = Player_NONE \<Longrightarrow>
         0 \<le> position_value \<lparr>board = (pre @ post)[k := p], current_player = other p\<rparr>"
proof (induction post arbitrary: pre)
  case Nil
  then show ?case by simp
next
  case (Cons c post)
  show ?case
  proof (cases "k = length pre")
    case True
    then have "c = Player_NONE" using Cons.prems(5) by simp
    then have "can_draw n (other p) (pre @ p # post)"
      using Cons.prems(1) by (auto split: if_splits)
    then have "0 \<le> position_value \<lparr>board = pre @ p # post, current_player = other p\<rparr>"
      using Cons.prems(2) by (intro IH) simp_all
    then show ?thesis using True by simp
  next
    case False
    have rest: "every_reply n p (pre @ [c]) post"
      using Cons.prems(1) by (auto split: if_splits)
    have "length (pre @ [c]) \<le> k" using False Cons.prems(3) by simp
    from Cons.IH [OF rest _ this] Cons.prems(2,4,5) show ?thesis by simp
  qed
qed

lemma checkers_sound:
  "length cs = 9 \<Longrightarrow> p \<noteq> Player_NONE \<Longrightarrow>
   (can_draw n p cs \<longrightarrow> 0 \<le> position_value \<lparr>board = cs, current_player = p\<rparr>)
   \<and> (cannot_win n p cs \<longrightarrow> position_value \<lparr>board = cs, current_player = p\<rparr> \<le> 0)"
proof (induction n arbitrary: p cs)
  case 0
  then show ?case by simp
next
  case (Suc n)
  let ?b = "\<lparr>board = cs, current_player = p\<rparr>"
  have b: "in_play ?b" using Suc.prems by (simp add: in_play_def)
  have q: "other p \<noteq> Player_NONE" using Suc.prems(2) by (simp add: other_player)
  have won: "won ?b \<longleftrightarrow> won9 cs" using Suc.prems(1) by (rule won9_won)
  have full: "emptySquares ?b = [] \<longleftrightarrow> Player_NONE \<notin> set cs" by (rule emptySquares_full)
  have draw: "0 \<le> position_value ?b" if "can_draw (Suc n) p cs"
  proof (cases "Player_NONE \<in> set cs")
    case False
    then show ?thesis
      using that won full by (simp add: position_value_full split: if_splits)
  next
    case True
    with that have open_game: "\<not> won ?b" "emptySquares ?b \<noteq> []" and "some_reply n p [] cs"
      using won full by (simp_all split: if_splits)
    from some_reply_sound [of n p "[]" cs] this(3) Suc.IH [OF _ q] Suc.prems(1)
    obtain k where k: "k < 9" "cs ! k = Player_NONE"
      "position_value \<lparr>board = cs[k := p], current_player = other p\<rparr> \<le> 0"
      by auto
    have "int k \<in> set (emptySquares ?b)"
      using k(1,2) Suc.prems(1) by (auto simp: emptySquares_cells)
    then have "- position_value (play ?b (int k))
        \<le> Max ((\<lambda>m. - position_value (play ?b m)) ` set (emptySquares ?b))"
      by (intro Max_ge) simp_all
    then show ?thesis
      using k(3) by (simp add: position_value_open [OF b open_game] play_cells)
  qed
  have win: "position_value ?b \<le> 0" if "cannot_win (Suc n) p cs"
  proof (cases "won9 cs \<or> Player_NONE \<notin> set cs")
    case True
    then show ?thesis
      using won full position_value_won [of ?b] position_value_full [of ?b] by auto
  next
    case False
    with that have open_game: "\<not> won ?b" "emptySquares ?b \<noteq> []" and all: "every_reply n p [] cs"
      using won full by (simp_all split: if_splits)
    have "- position_value (play ?b m) \<le> 0" if "m \<in> set (emptySquares ?b)" for m
    proof -
      from that obtain k where k: "k < 9" "m = int k" "cs ! k = Player_NONE"
        using Suc.prems(1) by (auto simp: emptySquares_cells)
      have "0 \<le> position_value \<lparr>board = ([] @ cs)[k := p], current_player = other p\<rparr>"
        using all Suc.prems(1) k Suc.IH [OF _ q]
        by (intro every_reply_sound [of n p]) simp_all
      then show ?thesis by (simp add: k(2) play_cells)
    qed
    then have "Max ((\<lambda>m. - position_value (play ?b m)) ` set (emptySquares ?b)) \<le> 0"
      using open_game(2) by (subst Max_le_iff) auto
    then show ?thesis
      by (simp add: position_value_open [OF b open_game])
  qed
  show ?case using draw win by blast
qed

lemma nobody_wins_from_the_start:
  "can_draw 10 Player_X (replicate 9 Player_NONE)"
  "cannot_win 10 Player_X (replicate 9 Player_NONE)"
  by code_simp+

lemma position_value_initial: "position_value initial_board = 0"
  using checkers_sound [of "replicate 9 Player_NONE" Player_X 10] nobody_wins_from_the_start
  by (simp add: initial_board_def)

text \<open>
  C2.  With depth for nine nested calls, the game in which \<^verbatim>\<open>findBestMove\<close>
  chooses every move from \<^verbatim>\<open>Board()\<close> on comes to an end, raises nothing, and
  ends on a board where \<^verbatim>\<open>isWin()\<close> is false and \<^verbatim>\<open>isDraw()\<close> is true, for
  every generator, that is, every order in which the legal moves are drawn.
\<close>

theorem selfPlay_ends_in_draw:
  "9 \<le> d \<Longrightarrow>
   \<exists>b' g'. selfPlay d initial_board g = Some (Inr b', g')
     \<and> isWin b' = Inr False \<and> (\<forall>h. fst (isDraw b' h) = Inr True)"
proof -
  assume "9 \<le> d"
  with selfPlay_draw [OF initial_board_in_play position_value_initial emptySquares_initial, of d g]
  obtain b' g' where "selfPlay d initial_board g = Some (Inr b', g')"
    "in_play b'" "\<not> won b'" "emptySquares b' = []"
    by auto
  then show ?thesis
    by (auto simp: isWin_in_play isDraw_in_play)
qed

theorem selfPlay_ends_in_draw_witness:
  "(9::nat) \<le> 9
   \<and> (\<exists>b' g'. selfPlay 9 initial_board (sconst 0) = Some (Inr b', g')
         \<and> isWin b' = Inr False \<and> fst (isDraw b' (sconst 0)) = Inr True)"
  using selfPlay_ends_in_draw [of 9 "sconst 0"] by auto

end
